theory Spec2Isabelle
  imports Complex_Main "HOL-Library.Log_Nat"
begin

section \<open>JavaScript numbers\<close>

text \<open>
  The pool's numbers are JavaScript numbers, that is IEEE 754 doubles. A finite double is a
  rational number, so a number is modelled by a \<open>rat\<close>; the values \<open>NaN\<close> and the two
  infinities are left out. Comparisons of doubles are exact. A quotient or a product of two
  doubles, and a decimal literal, is the exact value rounded to the nearest double, a tie
  going to the even significand: \<open>to_double\<close>. The significand has 53 bits; \<open>binade x\<close>
  is the exponent \<open>e\<close> with \<open>2^e \<le> x < 2^(e+1)\<close>, and the doubles of that binade are
  the multiples of \<open>2^(e-52)\<close>. The exponent range of the doubles is left out as well:
  where a quotient or a product of this program leaves it, the comparisons with 0.1 and
  0.5 and the maximum with 5 come out as they do for the exact value. A collection size or
  a counter is an integer below \<open>2^53\<close> and so a double.
\<close>

type_synonym number = rat

definition binade :: "rat \<Rightarrow> int" where
  "binade x = (if 1 \<le> x then bitlen \<lfloor>x\<rfloor> - 1 else - bitlen (\<lceil>1 / x\<rceil> - 1))"

definition round_half_even :: "rat \<Rightarrow> int" where
  "round_half_even y =
     (let f = \<lfloor>y\<rfloor>; d = y - of_int f
      in if d < 1 / 2 then f else if 1 / 2 < d then f + 1 else if even f then f else f + 1)"

definition to_double :: "rat \<Rightarrow> number" where
  "to_double x =
     (if x = 0 then 0
      else let ulp = 2 powi (binade \<bar>x\<bar> - 52)
           in sgn x * of_int (round_half_even (\<bar>x\<bar> / ulp)) * ulp)"

definition MAX_SAFE_INTEGER :: int where
  "MAX_SAFE_INTEGER = 9007199254740991"

section \<open>The default scaling algorithm (defaultPoolScalingAlgo.ts)\<close>

text \<open>
  The literals \<open>0.2\<close>, \<open>0.1\<close> and \<open>0.5\<close> denote the nearest doubles. The quotient
  \<open>curMaxStrongPoolSize / numActiveObjects\<close> and the product \<open>numActiveObjects * 0.2\<close> are
  rounded; \<open>Math.ceil\<close> and \<open>Math.max\<close> are exact.
\<close>

definition DEFAULT_MAX_STRONG_POOL_SIZE :: number where
  "DEFAULT_MAX_STRONG_POOL_SIZE = 5"

definition POOL_SCALING_FACTOR :: number where
  "POOL_SCALING_FACTOR = to_double (2 / 10)"

definition MIN_POOL_TO_ACTIVE_RATIO :: number where
  "MIN_POOL_TO_ACTIVE_RATIO = to_double (1 / 10)"

definition MAX_POOL_TO_ACTIVE_RATIO :: number where
  "MAX_POOL_TO_ACTIVE_RATIO = to_double (5 / 10)"

type_synonym PoolScalingSignature =
  "number \<Rightarrow> number \<Rightarrow> number \<Rightarrow> number \<Rightarrow> number \<Rightarrow> number"

definition defaultPoolScalingAlgo :: PoolScalingSignature where
  "defaultPoolScalingAlgo numActiveObjects curMaxStrongPoolSize numStrongPooledRefs
       numWeakPooledRefs numGC_arg =
     (if numActiveObjects = 0 then DEFAULT_MAX_STRONG_POOL_SIZE
      else
        let poolToActiveRatio = to_double (curMaxStrongPoolSize / numActiveObjects)
        in if poolToActiveRatio < MIN_POOL_TO_ACTIVE_RATIO
              \<or> poolToActiveRatio > MAX_POOL_TO_ACTIVE_RATIO
           then max (of_int \<lceil>to_double (numActiveObjects * POOL_SCALING_FACTOR)\<rceil>)
                    DEFAULT_MAX_STRONG_POOL_SIZE
           else max curMaxStrongPoolSize DEFAULT_MAX_STRONG_POOL_SIZE)"

section \<open>The pool (WeakPool.ts)\<close>

text \<open>
  WeakPool.ts holds the text of the class twice. The model follows the second text, the one
  with the active set, the counter of reclaimed active objects and the introspection
  queries.
\<close>

subsection \<open>Objects, handles and thrown values\<close>

text \<open>
  A pooled object is an opaque reference; it is modelled by its identity, a natural number.
  \<open>getWeakRef\<close> comes from the package weak-ref-cache, which hands out one cached
  \<open>WeakRef\<close> per object: two handles are the same handle exactly when their targets are the
  same object. A handle is therefore modelled by the identity of its target.
\<close>

type_synonym obj = nat

type_synonym weakref = nat

datatype exn = CallbackThrew nat | TypeError

definition getWeakRef :: "obj \<Rightarrow> weakref" where
  "getWeakRef ob = ob"

subsection \<open>Sets in insertion order\<close>

text \<open>
  A JavaScript \<open>Set\<close> iterates in insertion order, so it is modelled by a list that holds
  each member once: \<open>add\<close> appends a value that is not yet a member, \<open>delete\<close> removes it
  and reports whether it was a member, \<open>has\<close> tests membership.
\<close>

definition set_add :: "'a \<Rightarrow> 'a list \<Rightarrow> 'a list" where
  "set_add x xs = (if x \<in> set xs then xs else xs @ [x])"

definition set_has :: "'a \<Rightarrow> 'a list \<Rightarrow> bool" where
  "set_has x xs = (x \<in> set xs)"

definition set_delete :: "'a \<Rightarrow> 'a list \<Rightarrow> 'a list" where
  "set_delete x xs = removeAll x xs"

subsection \<open>The state\<close>

text \<open>
  The first eight fields are the private fields of the class that hold data (its callbacks
  \<open>#create\<close> and \<open>#reset\<close> appear as arguments of \<open>acquire\<close> and \<open>release\<close>). The last
  four are the part of the host the pool talks to: the objects the memory manager has reclaimed (a handle of
  such an object dereferences to \<open>undefined\<close>), the registrations made with the
  \<open>FinalizationRegistry\<close>, the number of \<open>setTimeout(updatePoolSize, 0)\<close> tasks waiting in
  the host's task queue, and the number of times the factory has been invoked.
\<close>

record pool =
  weakPool :: "weakref list"
  strongPool :: "obj list"
  activeObjects :: "weakref list"
  poolSizeUpdateScheduled :: bool
  numGC :: int
  numActiveGC :: int
  poolScalingAlgorithm :: PoolScalingSignature
  maxStrongPoolSize :: number
  collected :: "obj list"
  registered :: "(obj \<times> weakref) list"
  timers :: nat
  createCalls :: nat

definition deref :: "obj list \<Rightarrow> weakref \<Rightarrow> obj option" where
  "deref gone weakObj = (if weakObj \<in> set gone then None else Some weakObj)"

definition new_WeakPool :: "PoolScalingSignature \<Rightarrow> pool" where
  "new_WeakPool algo =
     \<lparr> weakPool = [], strongPool = [], activeObjects = [],
       poolSizeUpdateScheduled = False, numGC = 0, numActiveGC = 0,
       poolScalingAlgorithm = algo, maxStrongPoolSize = algo 0 0 0 0 0,
       collected = [], registered = [], timers = 0, createCalls = 0 \<rparr>"

subsection \<open>Statistics and introspection queries\<close>

text \<open>
  Each getter and query is written in state-passing style, returning its value together with
  the state it leaves behind.
\<close>

definition get_numActiveObjects :: "pool \<Rightarrow> number \<times> pool" where
  "get_numActiveObjects s = (of_nat (length (activeObjects s)), s)"

definition get_curMaxStrongPoolSize :: "pool \<Rightarrow> number \<times> pool" where
  "get_curMaxStrongPoolSize s = (maxStrongPoolSize s, s)"

definition get_numStrongPooledRefs :: "pool \<Rightarrow> number \<times> pool" where
  "get_numStrongPooledRefs s = (of_nat (length (strongPool s)), s)"

definition get_numWeakPooledRefs :: "pool \<Rightarrow> number \<times> pool" where
  "get_numWeakPooledRefs s = (of_nat (length (weakPool s)), s)"

definition get_numGC :: "pool \<Rightarrow> number \<times> pool" where
  "get_numGC s = (of_int (numGC s), s)"

text \<open>
  The getter \<open>numActiveGC\<close> reads \<open>this.numActiveGC\<close>, which is the getter itself, not the
  private field \<open>#numActiveGC\<close>: the body is a call of the getter on the same pool. The
  model returns \<open>None\<close> when the call does not return a value.
\<close>

partial_function (option) get_numActiveGC :: "pool \<Rightarrow> (number \<times> pool) option" where
  "get_numActiveGC s = get_numActiveGC s"

definition isActive :: "obj \<Rightarrow> pool \<Rightarrow> bool \<times> pool" where
  "isActive ob s = (set_has (getWeakRef ob) (activeObjects s), s)"

definition isStrongPooled :: "obj \<Rightarrow> pool \<Rightarrow> bool \<times> pool" where
  "isStrongPooled ob s = (ob \<in> set (strongPool s), s)"

definition isWeakPooled :: "obj \<Rightarrow> pool \<Rightarrow> bool \<times> pool" where
  "isWeakPooled ob s = (set_has (getWeakRef ob) (weakPool s), s)"

subsection \<open>acquire\<close>

text \<open>
  The loop of \<open>acquire\<close> over the weak pool: each handle visited is deleted from the weak
  pool; the first one that still dereferences is pushed onto the strong pool and ends the
  loop. The arguments are the reclaimed objects, the handles still to visit and the strong
  pool; the result is the weak pool and the strong pool after the loop. Since the set holds
  each handle once, deleting the visited handle leaves the handles still to visit.
\<close>

fun acquire_backfill :: "obj list \<Rightarrow> weakref list \<Rightarrow> obj list \<Rightarrow> weakref list \<times> obj list" where
  "acquire_backfill gone [] strong = ([], strong)"
| "acquire_backfill gone (weakObj # rest) strong =
     (case deref gone weakObj of
        None \<Rightarrow> acquire_backfill gone rest strong
      | Some strongObj \<Rightarrow> (rest, strong @ [strongObj]))"

text \<open>
  The factory is a callback of the pool's owner. Its outcome, should \<open>acquire\<close> call it, is
  the first argument: the object it returns or the value it throws. \<open>createCalls\<close> counts
  the calls. The strong pool holds objects only, so \<open>pop\<close> gives \<open>undefined\<close> exactly on
  an empty strong pool.
\<close>

definition acquire :: "exn + obj \<Rightarrow> pool \<Rightarrow> (exn + obj) \<times> pool" where
  "acquire create s =
     (if strongPool s \<noteq> [] then
        let ob = last (strongPool s);
            (weak', strong') =
               acquire_backfill (collected s) (weakPool s) (butlast (strongPool s))
        in (Inr ob,
            s\<lparr> weakPool := weak', strongPool := strong',
               activeObjects := set_add (getWeakRef ob) (activeObjects s) \<rparr>)
      else
        let s1 = s\<lparr> createCalls := Suc (createCalls s) \<rparr>
        in case create of
             Inl e \<Rightarrow> (Inl e, s1)
           | Inr ob \<Rightarrow>
               (Inr ob,
                s1\<lparr> registered := registered s1 @ [(ob, getWeakRef ob)],
                    activeObjects := set_add (getWeakRef ob) (activeObjects s1) \<rparr>))"

subsection \<open>release\<close>

text \<open>
  \<open>release_begin\<close> is the part of \<open>release\<close> before the reset callback is invoked: the
  handle is deleted from the active set, and registered for finalization when it was not a
  member.
\<close>

definition release_begin :: "obj \<Rightarrow> pool \<Rightarrow> pool" where
  "release_begin ob s =
     (let weakObj = getWeakRef ob
      in if set_has weakObj (activeObjects s)
         then s\<lparr> activeObjects := set_delete weakObj (activeObjects s) \<rparr>
         else s\<lparr> registered := registered s @ [(ob, weakObj)] \<rparr>)"

text \<open>
  The outcome of the reset callback is the second argument: \<open>None\<close> when it returns,
  \<open>Some e\<close> when it throws \<open>e\<close>.
\<close>

definition release :: "obj \<Rightarrow> exn option \<Rightarrow> pool \<Rightarrow> (exn + unit) \<times> pool" where
  "release ob reset s =
     (let s1 = release_begin ob s
      in case reset of
           Some e \<Rightarrow> (Inl e, s1)
         | None \<Rightarrow>
             let s2 = (if of_nat (length (strongPool s1)) < maxStrongPoolSize s1
                       then s1\<lparr> strongPool := strongPool s1 @ [ob] \<rparr>
                       else s1\<lparr> weakPool := set_add (getWeakRef ob) (weakPool s1) \<rparr>)
             in if poolSizeUpdateScheduled s2 then (Inr (), s2)
                else (Inr (), s2\<lparr> poolSizeUpdateScheduled := True, timers := Suc (timers s2) \<rparr>))"

subsection \<open>The rescale task\<close>

text \<open>
  The do-while loop of \<open>updatePoolSize\<close>: pop the strong pool, add the handle of the popped
  object to the weak pool, repeat while the capacity is below the length of the strong
  pool. On an empty strong pool \<open>pop\<close> gives \<open>undefined\<close>, of which no weak reference can
  be made: the loop ends with a \<open>TypeError\<close>.
\<close>

function updatePoolSize_shrink ::
  "number \<Rightarrow> obj list \<Rightarrow> weakref list \<Rightarrow> (exn + unit) \<times> obj list \<times> weakref list" where
  "updatePoolSize_shrink cap strong weak =
     (if strong = [] then (Inl TypeError, strong, weak)
      else
        let weak' = set_add (getWeakRef (last strong)) weak;
            strong' = butlast strong
        in if cap < of_nat (length strong') then updatePoolSize_shrink cap strong' weak'
           else (Inr (), strong', weak'))"
  by pat_completeness auto
termination
  by (relation "measure (\<lambda>(cap, strong, weak). length strong)") auto

declare updatePoolSize_shrink.simps [simp del]

text \<open>
  The for-of loop of \<open>updatePoolSize\<close>: each handle visited is deleted from the weak pool;
  one that still dereferences is pushed onto the strong pool, and the loop ends when the
  length returned by \<open>push\<close> is the capacity.
\<close>

fun updatePoolSize_promote ::
  "obj list \<Rightarrow> number \<Rightarrow> weakref list \<Rightarrow> obj list \<Rightarrow> weakref list \<times> obj list" where
  "updatePoolSize_promote gone cap [] strong = ([], strong)"
| "updatePoolSize_promote gone cap (weakObj # rest) strong =
     (case deref gone weakObj of
        None \<Rightarrow> updatePoolSize_promote gone cap rest strong
      | Some ob \<Rightarrow>
          if of_nat (length (strong @ [ob])) = cap then (rest, strong @ [ob])
          else updatePoolSize_promote gone cap rest (strong @ [ob]))"

text \<open>
  What is left of a list of handles once the handles up to and including the \<open>n\<close>-th one
  that satisfies \<open>P\<close> have been visited (nothing, if fewer than \<open>n\<close> satisfy it).
\<close>

fun after_resolving :: "nat \<Rightarrow> ('a \<Rightarrow> bool) \<Rightarrow> 'a list \<Rightarrow> 'a list" where
  "after_resolving 0 P ws = ws"
| "after_resolving (Suc n) P [] = []"
| "after_resolving (Suc n) P (w # ws) =
     (if P w then after_resolving n P ws else after_resolving (Suc n) P ws)"

definition updatePoolSize_finish :: "pool \<Rightarrow> (exn + unit) \<times> pool" where
  "updatePoolSize_finish s = (Inr (), s\<lparr> numGC := 0, poolSizeUpdateScheduled := False \<rparr>)"

definition newMaxStrongPoolSize :: "pool \<Rightarrow> number" where
  "newMaxStrongPoolSize s =
     poolScalingAlgorithm s (of_nat (length (activeObjects s))) (maxStrongPoolSize s)
       (of_nat (length (strongPool s))) (of_nat (length (weakPool s))) (of_int (numGC s))"

definition updatePoolSize :: "pool \<Rightarrow> (exn + unit) \<times> pool" where
  "updatePoolSize s =
     (let s1 = s\<lparr> maxStrongPoolSize := newMaxStrongPoolSize s \<rparr>
      in if maxStrongPoolSize s1 < of_nat (length (strongPool s1)) then
           (case updatePoolSize_shrink (maxStrongPoolSize s1) (strongPool s1) (weakPool s1) of
              (Inl e, strong', weak') \<Rightarrow> (Inl e, s1\<lparr> weakPool := weak', strongPool := strong' \<rparr>)
            | (Inr u, strong', weak') \<Rightarrow>
                updatePoolSize_finish (s1\<lparr> weakPool := weak', strongPool := strong' \<rparr>))
         else if maxStrongPoolSize s1 > of_nat (length (strongPool s1))
                 \<and> length (weakPool s1) > 0 then
           (case updatePoolSize_promote (collected s1) (maxStrongPoolSize s1) (weakPool s1)
                   (strongPool s1) of
              (weak', strong') \<Rightarrow>
                updatePoolSize_finish (s1\<lparr> weakPool := weak', strongPool := strong' \<rparr>))
         else updatePoolSize_finish s1)"

subsection \<open>The finalization callback\<close>

definition objFinalizer :: "weakref \<Rightarrow> pool \<Rightarrow> pool" where
  "objFinalizer weakObj s =
     (if set_has weakObj (weakPool s) then
        let s1 = s\<lparr> weakPool := set_delete weakObj (weakPool s) \<rparr>
        in if numGC s1 = MAX_SAFE_INTEGER then s1 else s1\<lparr> numGC := numGC s1 + 1 \<rparr>
      else if set_has weakObj (activeObjects s) then
        let s1 = s\<lparr> activeObjects := set_delete weakObj (activeObjects s) \<rparr>
        in if numActiveGC s1 = MAX_SAFE_INTEGER then s1
           else s1\<lparr> numActiveGC := numActiveGC s1 + 1 \<rparr>
      else s)"

subsection \<open>The pool in its host\<close>

text \<open>
  What can happen to a pool: a caller acquires or releases, the host's task queue runs a
  waiting rescale task (\<open>Yield\<close>), the memory manager reclaims an object (\<open>Collect\<close>), and the
  finalization registry calls back for a handle (\<open>Finalize\<close>). All five run to completion,
  one at a time. An exception thrown by a step leaves the state the step had reached.
\<close>

datatype event =
    Acquire "exn + obj"
  | Release obj "exn option"
  | Yield
  | Collect obj
  | Finalize weakref

definition runTimer :: "pool \<Rightarrow> pool" where
  "runTimer s = (if timers s = 0 then s else snd (updatePoolSize (s\<lparr> timers := timers s - 1 \<rparr>)))"

fun step :: "event \<Rightarrow> pool \<Rightarrow> pool" where
  "step (Acquire create) s = snd (acquire create s)"
| "step (Release ob reset) s = snd (release ob reset s)"
| "step Yield s = runTimer s"
| "step (Collect ob) s = s\<lparr> collected := set_add ob (collected s) \<rparr>"
| "step (Finalize weakObj) s = objFinalizer weakObj s"

definition run :: "event list \<Rightarrow> pool \<Rightarrow> pool" where
  "run es s = fold step es s"


inductive reachable :: "PoolScalingSignature \<Rightarrow> pool \<Rightarrow> bool" for algo where
  reachable_new: "reachable algo (new_WeakPool algo)"
| reachable_step: "reachable algo s \<Longrightarrow> reachable algo (step e s)"

subsection \<open>Callers and the host that keep to the rules\<close>

text \<open>
  A handle resolves while the memory manager has not reclaimed its target.
\<close>

definition resolves :: "obj list \<Rightarrow> weakref \<Rightarrow> bool" where
  "resolves gone weakObj = (deref gone weakObj \<noteq> None)"

text \<open>
  The factory constructs a new object: one that is not active and in neither tier. A caller
  with correct discipline releases only an object it has acquired and not yet released,
  which the pool records in its active set. Nothing is asked of the scheduler, the memory
  manager and the finalization registry.
\<close>

definition fresh :: "obj \<Rightarrow> pool \<Rightarrow> bool" where
  "fresh ob s =
     (ob \<notin> set (activeObjects s) \<and> ob \<notin> set (strongPool s) \<and> ob \<notin> set (weakPool s))"

fun permitted :: "event \<Rightarrow> pool \<Rightarrow> bool" where
  "permitted (Acquire (Inr ob)) s = fresh ob s"
| "permitted (Acquire (Inl e)) s = True"
| "permitted (Release ob reset) s = set_has (getWeakRef ob) (activeObjects s)"
| "permitted Yield s = True"
| "permitted (Collect ob) s = True"
| "permitted (Finalize weakObj) s = True"

inductive disciplined :: "PoolScalingSignature \<Rightarrow> pool \<Rightarrow> bool" for algo where
  disciplined_new: "disciplined algo (new_WeakPool algo)"
| disciplined_step: "disciplined algo s \<Longrightarrow> permitted e s \<Longrightarrow> disciplined algo (step e s)"

subsection \<open>Invariants\<close>

text \<open>
  \<open>exclusive\<close>: no object is in two of the active set, the strong tier and the weak tier,
  and none is twice in one of them. \<open>backfilled\<close>: the capacity is at least 1 and a weak
  tier with a handle that resolves goes with a non-empty strong tier. \<open>single_pending\<close>: at
  most one rescale task waits, and only while the debounce flag is set.
\<close>

definition exclusive :: "pool \<Rightarrow> bool" where
  "exclusive s =
     (distinct (strongPool s) \<and> distinct (weakPool s) \<and> distinct (activeObjects s)
      \<and> set (activeObjects s) \<inter> set (strongPool s) = {}
      \<and> set (activeObjects s) \<inter> set (weakPool s) = {}
      \<and> set (strongPool s) \<inter> set (weakPool s) = {})"

definition backfilled :: "pool \<Rightarrow> bool" where
  "backfilled s =
     (1 \<le> maxStrongPoolSize s
      \<and> ((\<exists>w \<in> set (weakPool s). resolves (collected s) w) \<longrightarrow> strongPool s \<noteq> []))"

definition at_least_one :: "PoolScalingSignature \<Rightarrow> bool" where
  "at_least_one algo = (\<forall>a b c d e. 1 \<le> algo a b c d e)"


subsection \<open>Pools used as examples\<close>

text \<open>A scaling algorithm that gives the strong tier no room, which the contract allows.\<close>

definition noStrongTier :: PoolScalingSignature where
  "noStrongTier numActiveObjects curMaxStrongPoolSize numStrongPooledRefs numWeakPooledRefs
     numGC_arg = 0"

text \<open>A pool whose two reclamation counters have reached the largest safe integer.\<close>

definition saturated_pool :: pool where
  "saturated_pool =
     (new_WeakPool defaultPoolScalingAlgo)
       \<lparr> weakPool := [0], activeObjects := [1],
         numGC := MAX_SAFE_INTEGER, numActiveGC := MAX_SAFE_INTEGER \<rparr>"

text \<open>
  A pool without strong tier after one acquire and the release of the acquired object; a
  default pool with seven objects in the strong tier; a default pool with room in the strong
  tier and three weak handles, the second one reclaimed; the default pool after six acquires
  and the release of the six objects; the default pool after one acquire and its release.
\<close>

definition weak_only_pool :: pool where
  "weak_only_pool = step (Release 0 None) (step (Acquire (Inr 0)) (new_WeakPool noStrongTier))"

text \<open>
  A scaling algorithm that answers 1 at construction and 2.5 afterwards, and its pool after
  five acquires, the release of the five objects and the removal of the pending task from
  the queue, which is the state the task starts from. The same for the answer -1, after
  one acquire and its release.
\<close>

definition twoAndAHalf :: PoolScalingSignature where
  "twoAndAHalf numActiveObjects curMaxStrongPoolSize numStrongPooledRefs numWeakPooledRefs
     numGC_arg = (if curMaxStrongPoolSize = 0 then 1 else 5 / 2)"

definition fractional_pool :: pool where
  "fractional_pool =
     (run [Acquire (Inr 0), Acquire (Inr 1), Acquire (Inr 2), Acquire (Inr 3), Acquire (Inr 4),
           Release 0 None, Release 1 None, Release 2 None, Release 3 None, Release 4 None]
        (new_WeakPool twoAndAHalf)) \<lparr> timers := 0 \<rparr>"

definition minusOne :: PoolScalingSignature where
  "minusOne numActiveObjects curMaxStrongPoolSize numStrongPooledRefs numWeakPooledRefs
     numGC_arg = (if curMaxStrongPoolSize = 0 then 1 else - 1)"

definition negative_pool :: pool where
  "negative_pool =
     (run [Acquire (Inr 0), Release 0 None] (new_WeakPool minusOne)) \<lparr> timers := 0 \<rparr>"

definition overfull_pool :: pool where
  "overfull_pool = (new_WeakPool defaultPoolScalingAlgo) \<lparr> strongPool := [0, 1, 2, 3, 4, 5, 6] \<rparr>"

definition underfull_pool :: pool where
  "underfull_pool =
     (new_WeakPool defaultPoolScalingAlgo)
       \<lparr> weakPool := [1, 2, 3], strongPool := [0], collected := [2] \<rparr>"

definition overflowed_pool :: pool where
  "overflowed_pool =
     run [Acquire (Inr 0), Acquire (Inr 1), Acquire (Inr 2), Acquire (Inr 3), Acquire (Inr 4),
          Acquire (Inr 5), Release 0 None, Release 1 None, Release 2 None, Release 3 None,
          Release 4 None, Release 5 None]
       (new_WeakPool defaultPoolScalingAlgo)"

definition pooled_once :: pool where
  "pooled_once =
     step (Release 0 None) (step (Acquire (Inr 0)) (new_WeakPool defaultPoolScalingAlgo))"

section \<open>Properties of rounding to a double\<close>

lemma pow2_less_cancel:
  assumes "(2::rat) powi a < 2 powi b"
  shows "a < b"
proof (rule ccontr)
  assume "\<not> a < b"
  then have "b \<le> a" by simp
  then have "(2::rat) powi b \<le> 2 powi a" by (intro power_int_increasing) simp_all
  with assms show False by simp
qed

lemma binade_bounds:
  assumes "0 < x"
  shows "2 powi binade x \<le> x \<and> x < 2 powi (binade x + 1)"
proof (cases "1 \<le> x")
  case True
  define a where "a = \<lfloor>x\<rfloor>"
  from True have a: "0 < a" by (simp add: a_def)
  from bitlen_bounds [OF a] have b: "2 ^ nat (bitlen a - 1) \<le> a" "a < 2 ^ nat (bitlen a)"
    by simp_all
  from a have bl: "1 \<le> bitlen a" using bitlen_bounds [OF a] bitlen_nonneg [of a]
    by (cases "bitlen a = 0") (auto simp: less_le)
  have e: "binade x = bitlen a - 1" using True by (simp add: binade_def a_def)
  have "(2::rat) powi (bitlen a - 1) = of_int (2 ^ nat (bitlen a - 1))"
    using bl by (simp add: power_int_def)
  also have "\<dots> \<le> of_int a" using b(1) by (simp only: of_int_le_iff)
  also have "\<dots> \<le> x" by (simp add: a_def)
  finally have lo: "2 powi binade x \<le> x" by (simp add: e)
  have "a + 1 \<le> 2 ^ nat (bitlen a)" using b(2) by simp
  then have "(of_int (a + 1) :: rat) \<le> of_int (2 ^ nat (bitlen a))" by (simp only: of_int_le_iff)
  moreover have "x < of_int (a + 1)" using floor_correct [of x] by (simp add: a_def)
  moreover have "(of_int (2 ^ nat (bitlen a)) :: rat) = 2 powi (binade x + 1)"
    using bl by (simp add: e power_int_def)
  ultimately have "x < 2 powi (binade x + 1)" by simp
  with lo show ?thesis by simp
next
  case False
  with assms have x1: "x < 1" by simp
  define t where "t = \<lceil>1 / x\<rceil>"
  define b where "b = t - 1"
  from assms x1 have y1: "1 < 1 / x" by (simp add: field_simps)
  then have "2 \<le> t" unfolding t_def by (simp add: le_ceiling_iff)
  then have b0: "0 < b" by (simp add: b_def)
  from bitlen_bounds [OF b0] have bb: "2 ^ nat (bitlen b - 1) \<le> b" "b < 2 ^ nat (bitlen b)"
    by simp_all
  from b0 have bl: "1 \<le> bitlen b" using bitlen_bounds [OF b0] bitlen_nonneg [of b]
    by (cases "bitlen b = 0") (auto simp: less_le)
  have e: "binade x = - bitlen b" using False by (simp add: binade_def b_def t_def)
  have yt: "1 / x \<le> of_int t" by (simp add: t_def)
  have blt: "of_int b < 1 / x" unfolding b_def t_def using ceiling_correct [of "1 / x"] by simp
  have "t \<le> 2 ^ nat (bitlen b)" using bb(2) by (simp add: b_def)
  then have "(of_int t :: rat) \<le> of_int (2 ^ nat (bitlen b))" by (simp only: of_int_le_iff)
  also have "\<dots> = 2 ^ nat (bitlen b)" by simp
  finally have "1 / x \<le> 2 ^ nat (bitlen b)" using yt by (rule order_trans [rotated])
  with assms have "1 / 2 ^ nat (bitlen b) \<le> x" by (simp add: field_simps)
  moreover have "(2::rat) powi (- bitlen b) = 1 / 2 ^ nat (bitlen b)"
    using bl by (simp add: power_int_def field_simps)
  ultimately have lo: "2 powi binade x \<le> x" by (simp add: e)
  have "(2::rat) ^ nat (bitlen b - 1) = of_int (2 ^ nat (bitlen b - 1))" by simp
  also have "\<dots> \<le> of_int b" using bb(1) by (simp only: of_int_le_iff)
  also have "\<dots> < 1 / x" by (rule blt)
  finally have "2 ^ nat (bitlen b - 1) < 1 / x" .
  with assms have hi': "x < 1 / 2 ^ nat (bitlen b - 1)" by (simp add: field_simps)
  have "(2::rat) powi (- bitlen b + 1) = 1 / 2 ^ nat (bitlen b - 1)"
  proof (cases "bitlen b = 1")
    case True
    then show ?thesis by simp
  next
    case False
    with bl have "- bitlen b + 1 < 0" by simp
    then have "(2::rat) powi (- bitlen b + 1) = inverse 2 ^ nat (bitlen b - 1)"
      by (simp add: power_int_def)
    then show ?thesis by (simp add: field_simps)
  qed
  with hi' have "x < 2 powi (binade x + 1)" by (simp add: e)
  with lo show ?thesis by simp
qed

lemma binade_unique:
  assumes "0 < x" "2 powi e \<le> x" "x < 2 powi (e + 1)"
  shows "binade x = e"
proof -
  from binade_bounds [OF assms(1)] have b: "2 powi binade x \<le> x" "x < 2 powi (binade x + 1)"
    by simp_all
  have "(2::rat) powi e < 2 powi (binade x + 1)" using assms(2) b(2) by simp
  then have 1: "e < binade x + 1" by (rule pow2_less_cancel)
  have "(2::rat) powi binade x < 2 powi (e + 1)" using assms(3) b(1) by simp
  then have 2: "binade x < e + 1" by (rule pow2_less_cancel)
  from 1 2 show ?thesis by simp
qed

lemma binade_mono:
  assumes "0 < x" "x \<le> y"
  shows "binade x \<le> binade y"
proof -
  from assms have y: "0 < y" by simp
  have "(2::rat) powi binade x \<le> x" using binade_bounds [OF assms(1)] by simp
  also have "\<dots> \<le> y" by fact
  also have "\<dots> < 2 powi (binade y + 1)" using binade_bounds [OF y] by simp
  finally have "binade x < binade y + 1" by (rule pow2_less_cancel)
  then show ?thesis by simp
qed

lemma round_half_even_bounds: "\<lfloor>y\<rfloor> \<le> round_half_even y \<and> round_half_even y \<le> \<lfloor>y\<rfloor> + 1"
  by (simp add: round_half_even_def Let_def)

lemma round_half_even_of_int [simp]: "round_half_even (of_int k) = k"
  by (simp add: round_half_even_def Let_def)

lemma round_half_even_down:
  assumes "of_int k \<le> y" "y < of_int k + 1 / 2"
  shows "round_half_even y = k"
proof -
  from assms have "\<lfloor>y\<rfloor> = k" by (intro floor_unique) simp_all
  with assms show ?thesis by (simp add: round_half_even_def Let_def)
qed

lemma round_half_even_up:
  assumes "of_int k + 1 / 2 < y"
  shows "k + 1 \<le> round_half_even y"
proof (cases "of_int (k + 1) \<le> y")
  case True
  then have "k + 1 \<le> \<lfloor>y\<rfloor>" by (simp add: le_floor_iff)
  with round_half_even_bounds [of y] show ?thesis by simp
next
  case False
  with assms have "\<lfloor>y\<rfloor> = k" by (intro floor_unique) simp_all
  with assms show ?thesis by (simp add: round_half_even_def Let_def)
qed

lemma round_half_even_mono:
  assumes "y \<le> z"
  shows "round_half_even y \<le> round_half_even z"
proof (cases "\<lfloor>y\<rfloor> = \<lfloor>z\<rfloor>")
  case True
  with assms show ?thesis by (auto simp: round_half_even_def Let_def)
next
  case False
  with assms have "\<lfloor>y\<rfloor> + 1 \<le> \<lfloor>z\<rfloor>" using floor_mono [OF assms] by simp
  with round_half_even_bounds [of y] round_half_even_bounds [of z] show ?thesis by simp
qed

lemma to_double_pos:
  "0 < x \<Longrightarrow> to_double x =
     of_int (round_half_even (x / 2 powi (binade x - 52))) * 2 powi (binade x - 52)"
  by (simp add: to_double_def Let_def)

lemma to_double_minus: "to_double (- x) = - to_double x"
  by (simp add: to_double_def Let_def sgn_minus)

lemma to_double_0 [simp]: "to_double 0 = 0"
  by (simp add: to_double_def)

lemma pow2_pos [simp]: "0 < (2::rat) powi e"
  by (simp add: zero_less_power_int)

lemma to_double_range:
  assumes "0 < x"
  shows "2 powi binade x \<le> to_double x \<and> to_double x \<le> 2 powi (binade x + 1)"
proof -
  define u :: rat where "u = 2 powi (binade x - 52)"
  define lo :: int where "lo = 2 ^ 52"
  define hi :: int where "hi = 2 ^ 53"
  have u: "0 < u" by (simp add: u_def)
  from binade_bounds [OF assms] have b: "2 powi binade x \<le> x" "x < 2 powi (binade x + 1)"
    by simp_all
  have lo: "(2::rat) powi binade x = of_int lo * u"
    unfolding u_def lo_def by (simp add: power_int_diff)
  have hi: "(2::rat) powi (binade x + 1) = of_int hi * u"
    unfolding u_def hi_def by (simp add: power_int_diff power_int_add)
  from b(1) have "of_int lo * u \<le> x" unfolding lo .
  with u have "of_int lo \<le> x / u" by (simp only: pos_le_divide_eq)
  from round_half_even_mono [OF this] have r1: "lo \<le> round_half_even (x / u)"
    by (simp only: round_half_even_of_int)
  from b(2) have "x < of_int hi * u" unfolding hi .
  with u have "x / u < of_int hi" by (simp only: pos_divide_less_eq)
  then have "x / u \<le> of_int hi" by (rule less_imp_le)
  from round_half_even_mono [OF this] have r2: "round_half_even (x / u) \<le> hi"
    by (simp only: round_half_even_of_int)
  from r1 have "(of_int lo :: rat) \<le> of_int (round_half_even (x / u))"
    by (simp only: of_int_le_iff)
  with u have l: "of_int lo * u \<le> of_int (round_half_even (x / u)) * u"
    by (simp only: mult_le_cancel_right_pos)
  from r2 have "(of_int (round_half_even (x / u)) :: rat) \<le> of_int hi"
    by (simp only: of_int_le_iff)
  with u have h: "of_int (round_half_even (x / u)) * u \<le> of_int hi * u"
    by (simp only: mult_le_cancel_right_pos)
  from l h show ?thesis
    unfolding to_double_pos [OF assms] lo hi u_def [symmetric] by (rule conjI)
qed

lemma to_double_mono_pos:
  assumes "0 < x" "x \<le> y"
  shows "to_double x \<le> to_double y"
proof -
  from assms have y: "0 < y" by simp
  show ?thesis
  proof (cases "binade x = binade y")
    case True
    define u :: rat where "u = 2 powi (binade y - 52)"
    have u: "0 < u" by (simp add: u_def)
    from assms(2) u have "x / u \<le> y / u" by (simp add: divide_right_mono)
    from round_half_even_mono [OF this]
    have "(of_int (round_half_even (x / u)) :: rat) \<le> of_int (round_half_even (y / u))"
      by (simp only: of_int_le_iff)
    with u have "of_int (round_half_even (x / u)) * u \<le> of_int (round_half_even (y / u)) * u"
      by simp
    then show ?thesis
      unfolding to_double_pos [OF assms(1)] to_double_pos [OF y] True u_def [symmetric] .
  next
    case False
    with binade_mono [OF assms] have "binade x + 1 \<le> binade y" by simp
    then have "(2::rat) powi (binade x + 1) \<le> 2 powi binade y"
      by (intro power_int_increasing) simp_all
    with to_double_range [OF assms(1)] to_double_range [OF y] show ?thesis by simp
  qed
qed

lemma to_double_nonneg: "0 \<le> x \<Longrightarrow> 0 \<le> to_double x"
proof (cases "x = 0")
  case False
  assume "0 \<le> x"
  with False have "0 < x" by simp
  from to_double_range [OF this] have "2 powi binade x \<le> to_double x" by simp
  from less_le_trans [OF pow2_pos this] show ?thesis by simp
qed simp

lemma to_double_pos_pos: "0 < x \<Longrightarrow> 0 < to_double x"
proof -
  assume "0 < x"
  from to_double_range [OF this] have "2 powi binade x \<le> to_double x" by simp
  from less_le_trans [OF pow2_pos this] show ?thesis .
qed

lemma to_double_mono:
  assumes "x \<le> y"
  shows "to_double x \<le> to_double y"
proof -
  consider (pos) "0 < x" | (mid) "x \<le> 0" "0 \<le> y" | (neg) "y < 0" using assms by linarith
  then show ?thesis
  proof cases
    case pos
    then show ?thesis using assms by (rule to_double_mono_pos)
  next
    case mid
    from mid(1) have "0 \<le> to_double (- x)" by (intro to_double_nonneg) simp
    then have "to_double x \<le> 0" by (simp add: to_double_minus)
    with to_double_nonneg [OF mid(2)] show ?thesis by simp
  next
    case neg
    from neg assms have "0 < - y" "- y \<le> - x" by simp_all
    then have "to_double (- y) \<le> to_double (- x)" by (rule to_double_mono_pos)
    then show ?thesis by (simp add: to_double_minus)
  qed
qed

lemma to_double_exact:
  assumes "0 < m" "m < 2 ^ 53"
  shows "to_double (of_int m * 2 powi k) = of_int m * 2 powi k"
proof -
  define x :: rat where "x = of_int m * 2 powi k"
  have x: "0 < x" using assms(1) by (simp add: x_def)
  define e where "e = binade x"
  from binade_bounds [OF x] have b: "2 powi e \<le> x" by (simp add: e_def)
  have "(of_int m :: rat) < of_int (2 ^ 53)" using assms(2) by (simp only: of_int_less_iff)
  then have "x < 2 ^ 53 * 2 powi k" by (simp add: x_def)
  also have "\<dots> = 2 powi (53 + k)" by (simp add: power_int_add)
  finally have "(2::rat) powi e < 2 powi (53 + k)" using b by simp
  then have "e < 53 + k" by (rule pow2_less_cancel)
  then have ge: "0 \<le> k - e + 52" by simp
  have "x / 2 powi (e - 52) = of_int m * 2 powi (k - e + 52)"
    by (simp add: x_def power_int_diff power_int_add field_simps)
  also have "\<dots> = of_int (m * 2 ^ nat (k - e + 52))"
    using ge by (simp add: power_int_def)
  finally have q: "x / 2 powi (e - 52) = of_int (m * 2 ^ nat (k - e + 52))" .
  have "to_double x = of_int (m * 2 ^ nat (k - e + 52)) * 2 powi (e - 52)"
    unfolding to_double_pos [OF x] e_def [symmetric] q by (simp only: round_half_even_of_int)
  also have "\<dots> = of_int m * (2 powi (k - e + 52) * 2 powi (e - 52))"
    using ge by (simp add: power_int_def)
  also have "2 powi (k - e + 52) * 2 powi (e - 52) = (2::rat) powi k"
    by (simp flip: power_int_add)
  finally show ?thesis by (simp add: x_def)
qed

lemma to_double_of_int:
  assumes "\<bar>m\<bar> < 2 ^ 53"
  shows "to_double (of_int m) = of_int m"
proof -
  consider "m = 0" | "0 < m" | "m < 0" by linarith
  then show ?thesis
  proof cases
    case 1
    then show ?thesis by simp
  next
    case 2
    with assms to_double_exact [of m 0] show ?thesis by simp
  next
    case 3
    with assms to_double_exact [of "- m" 0] have "to_double (- of_int m) = - of_int m" by simp
    then show ?thesis by (simp add: to_double_minus)
  qed
qed

section \<open>Properties of the default scaling algorithm\<close>

lemmas algo_defs = defaultPoolScalingAlgo_def DEFAULT_MAX_STRONG_POOL_SIZE_def
  POOL_SCALING_FACTOR_def MIN_POOL_TO_ACTIVE_RATIO_def MAX_POOL_TO_ACTIVE_RATIO_def

lemma MIN_value: "MIN_POOL_TO_ACTIVE_RATIO = 7205759403792794 / 2 ^ 56"
  unfolding MIN_POOL_TO_ACTIVE_RATIO_def by code_simp

lemma MAX_value: "MAX_POOL_TO_ACTIVE_RATIO = 1 / 2"
  unfolding MAX_POOL_TO_ACTIVE_RATIO_def by code_simp

lemma FACTOR_value: "POOL_SCALING_FACTOR = 3602879701896397 / 2 ^ 54"
  unfolding POOL_SCALING_FACTOR_def by code_simp

lemma above_half_value:
  "to_double (1 / 2 + 1 / (2 * 9007199254740991)) = 4503599627370497 / 2 ^ 53"
  by code_simp

lemma below_tenth_exact:
  "to_double (7205759403792793 / 2 ^ 56) = 7205759403792793 / 2 ^ 56"
  by code_simp

lemma beyond_safe_range:
  "defaultPoolScalingAlgo (2 ^ 60) 0 0 0 0 = 230584300921369408
   \<and> \<lceil>(2 ^ 60 :: rat) * (2 / 10)\<rceil> = 230584300921369396"
  by code_simp

lemma ratio_flip: "(of_int c :: rat) / of_int n = of_int (- c) / of_int (- n)"
  by simp

lemma ratio_below_tenth_pos:
  assumes "0 < n" "n \<le> MAX_SAFE_INTEGER" "(of_int c :: rat) / of_int n < 1 / 10"
  shows "to_double (of_int c / of_int n) < MIN_POOL_TO_ACTIVE_RATIO"
proof -
  from assms(1,3) have "(of_int (10 * c) :: rat) < of_int n" by (simp add: field_simps)
  then have "10 * c < n" by (simp only: of_int_less_iff)
  with assms(2) have "c * 72057594037927936 \<le> 7205759403792793 * n"
    by (simp add: MAX_SAFE_INTEGER_def)
  then have "(of_int (c * 72057594037927936) :: rat) \<le> of_int (7205759403792793 * n)"
    by (simp only: of_int_le_iff)
  with assms(1) have "(of_int c :: rat) / of_int n \<le> 7205759403792793 / 2 ^ 56"
    by (simp add: field_simps)
  from to_double_mono [OF this]
  have "to_double (of_int c / of_int n) \<le> 7205759403792793 / 2 ^ 56"
    by (simp only: below_tenth_exact)
  then show ?thesis by (simp add: MIN_value)
qed

lemma ratio_below_tenth:
  assumes "n \<noteq> 0" "\<bar>n\<bar> \<le> MAX_SAFE_INTEGER"
  shows "(to_double (of_int c / of_int n) < MIN_POOL_TO_ACTIVE_RATIO)
           = ((of_int c :: rat) / of_int n < 1 / 10)"
proof
  assume l: "to_double (of_int c / of_int n) < MIN_POOL_TO_ACTIVE_RATIO"
  show "(of_int c :: rat) / of_int n < 1 / 10"
  proof (rule ccontr)
    assume "\<not> (of_int c :: rat) / of_int n < 1 / 10"
    then have "1 / 10 \<le> (of_int c :: rat) / of_int n" by simp
    from to_double_mono [OF this] l show False by (simp add: MIN_POOL_TO_ACTIVE_RATIO_def)
  qed
next
  assume r: "(of_int c :: rat) / of_int n < 1 / 10"
  show "to_double (of_int c / of_int n) < MIN_POOL_TO_ACTIVE_RATIO"
  proof (cases "0 < n")
    case True
    with assms r show ?thesis by (intro ratio_below_tenth_pos) simp_all
  next
    case False
    with assms have n: "0 < - n" "- n \<le> MAX_SAFE_INTEGER" by simp_all
    from r have "(of_int (- c) :: rat) / of_int (- n) < 1 / 10" by simp
    from ratio_below_tenth_pos [OF n this] show ?thesis by simp
  qed
qed

lemma ratio_above_half_pos:
  assumes "0 < n" "n \<le> MAX_SAFE_INTEGER" "1 / 2 < (of_int c :: rat) / of_int n"
  shows "MAX_POOL_TO_ACTIVE_RATIO < to_double (of_int c / of_int n)"
proof -
  from assms(1,3) have "(of_int n :: rat) < of_int (2 * c)" by (simp add: field_simps)
  then have "n < 2 * c" by (simp only: of_int_less_iff)
  with assms(1,2) have "(9007199254740991 + 1) * n \<le> 2 * 9007199254740991 * c"
    by (simp add: MAX_SAFE_INTEGER_def)
  then have "(of_int ((9007199254740991 + 1) * n) :: rat) \<le> of_int (2 * 9007199254740991 * c)"
    by (simp only: of_int_le_iff)
  with assms(1) have "1 / 2 + 1 / (2 * 9007199254740991) \<le> (of_int c :: rat) / of_int n"
    by (simp add: field_simps)
  from to_double_mono [OF this]
  have "4503599627370497 / 2 ^ 53 \<le> to_double (of_int c / of_int n)"
    by (simp only: above_half_value)
  then show ?thesis by (simp add: MAX_value)
qed

lemma ratio_above_half:
  assumes "n \<noteq> 0" "\<bar>n\<bar> \<le> MAX_SAFE_INTEGER"
  shows "(MAX_POOL_TO_ACTIVE_RATIO < to_double (of_int c / of_int n))
           = (1 / 2 < (of_int c :: rat) / of_int n)"
proof
  assume l: "MAX_POOL_TO_ACTIVE_RATIO < to_double (of_int c / of_int n)"
  show "1 / 2 < (of_int c :: rat) / of_int n"
  proof (rule ccontr)
    assume "\<not> 1 / 2 < (of_int c :: rat) / of_int n"
    then have "(of_int c :: rat) / of_int n \<le> 5 / 10" by simp
    from to_double_mono [OF this] l show False by (simp add: MAX_POOL_TO_ACTIVE_RATIO_def)
  qed
next
  assume r: "1 / 2 < (of_int c :: rat) / of_int n"
  show "MAX_POOL_TO_ACTIVE_RATIO < to_double (of_int c / of_int n)"
  proof (cases "0 < n")
    case True
    with assms r show ?thesis by (intro ratio_above_half_pos) simp_all
  next
    case False
    with assms have n: "0 < - n" "- n \<le> MAX_SAFE_INTEGER" by simp_all
    from r have "1 / 2 < (of_int (- c) :: rat) / of_int (- n)" by simp
    from ratio_above_half_pos [OF n this] show ?thesis by simp
  qed
qed

lemma ceil_scaled:
  assumes "0 < n" "n \<le> MAX_SAFE_INTEGER"
  shows "\<lceil>to_double (of_int n * POOL_SCALING_FACTOR)\<rceil> = \<lceil>(of_int n :: rat) * (2 / 10)\<rceil>"
proof -
  define x :: rat where "x = of_int n * POOL_SCALING_FACTOR"
  define e where "e = binade x"
  define w :: int where "w = 2 ^ nat (52 - e)"
  define q where "q = n div 5"
  have nr: "(0::rat) < of_int n" "(of_int n :: rat) \<le> 9007199254740991"
    using assms by (simp_all add: MAX_SAFE_INTEGER_def)
  have x5: "x = of_int n / 5 + of_int n / (5 * 2 ^ 54)"
    by (simp add: x_def FACTOR_value field_simps)
  have x0: "0 < x" using nr(1) by (simp add: x_def FACTOR_value)
  have "x < 2 powi 51" using nr by (simp add: x5)
  moreover have "2 powi e \<le> x" using binade_bounds [OF x0] by (simp add: e_def)
  ultimately have "(2::rat) powi e < 2 powi 51" by (rule le_less_trans [rotated])
  then have e51: "e < 51" by (rule pow2_less_cancel)
  have xe: "x < 2 powi (e + 1)" using binade_bounds [OF x0] by (simp add: e_def)
  have w4: "4 \<le> w"
  proof -
    from e51 have "2 \<le> nat (52 - e)" by simp
    then have "(2::int) ^ 2 \<le> 2 ^ nat (52 - e)" by (intro power_increasing) simp_all
    then show ?thesis by (simp add: w_def)
  qed
  have wpow: "(of_int w :: rat) = 2 powi (52 - e)"
    using e51 by (simp add: w_def power_int_def)
  have uw: "(2::rat) powi (e - 52) * of_int w = 1"
    unfolding wpow by (simp flip: power_int_add)
  have wr: "(0::rat) < of_int w" "(4::rat) \<le> of_int w" using w4 by simp_all
  have div_u: "x / 2 powi (e - 52) = x * of_int w"
    using uw by (simp add: field_simps)
  have td: "to_double x = of_int (round_half_even (x * of_int w)) / of_int w"
  proof -
    have "to_double x = of_int (round_half_even (x * of_int w)) * 2 powi (e - 52)"
      unfolding to_double_pos [OF x0] e_def [symmetric] div_u ..
    also have "2 powi (e - 52) = 1 / (of_int w :: rat)"
      using uw wr(1) by (simp add: field_simps)
    finally show ?thesis by simp
  qed
  have xw53: "x * of_int w < 2 ^ 53"
  proof -
    have "x * of_int w < 2 powi (e + 1) * of_int w" using xe wr(1) by simp
    also have "\<dots> = 2 powi 53" unfolding wpow by (simp flip: power_int_add)
    finally show ?thesis by simp
  qed
  show ?thesis
  proof (cases "n mod 5 = 0")
    case True
    then have n5: "n = 5 * q" by (auto simp: q_def)
    then have xq: "x = of_int q + of_int q / 2 ^ 54" by (simp add: x5 field_simps)
    from n5 assms(1) have q0: "0 < q" by simp
    then have qr: "(0::rat) < of_int q" by simp
    have lo: "of_int (q * w) \<le> x * of_int w"
      using qr wr(1) by (simp add: xq field_simps)
    have "of_int q * of_int w \<le> x * of_int w" using lo by simp
    with xw53 have "(of_int q :: rat) * of_int w < 2 ^ 53" by simp
    then have "(of_int q :: rat) * of_int w / 2 ^ 54 < 1 / 2" by simp
    then have hi: "x * of_int w < of_int (q * w) + 1 / 2"
      by (simp add: xq field_simps)
    from round_half_even_down [OF lo hi] have "to_double x = of_int (q * w) / of_int w"
      by (simp only: td)
    with wr(1) have "to_double x = of_int q" by simp
    moreover have "(of_int n :: rat) * (2 / 10) = of_int q" by (simp add: n5)
    ultimately show ?thesis by (simp add: x_def)
  next
    case False
    define r where "r = n mod 5"
    from False have r: "1 \<le> r" "r \<le> 4" and n5: "n = 5 * q + r"
      unfolding r_def q_def
      using pos_mod_sign [of 5 n] pos_mod_bound [of 5 n] by simp_all
    from n5 r assms(1) have q0: "0 \<le> q" by simp
    have q53: "\<bar>q + 1\<bar> < 2 ^ 53" using n5 r q0 assms(2) by (simp add: MAX_SAFE_INTEGER_def)
    have rr: "(1::rat) \<le> of_int r" "(of_int r :: rat) \<le> 4" using r by simp_all
    have nq: "(of_int n :: rat) = 5 * of_int q + of_int r" by (simp add: n5)
    have exact: "\<lceil>(of_int n :: rat) * (2 / 10)\<rceil> = q + 1"
      using rr by (intro ceiling_unique) (simp_all add: nq field_simps)
    have "x \<le> of_int (q + 1)"
      using rr nr(2) by (simp add: x5 nq field_simps)
    from to_double_mono [OF this] have up: "to_double x \<le> of_int (q + 1)"
      by (simp only: to_double_of_int [OF q53])
    have "of_int (q * w) + 1 / 2 < x * of_int w"
    proof -
      have "of_int q + 1 / 5 \<le> x" using rr nr(1) by (simp add: x5 nq field_simps)
      with wr(1) have "(of_int q + 1 / 5) * of_int w \<le> x * of_int w" by simp
      moreover have "of_int (q * w) + 1 / 2 < (of_int q + 1 / 5) * (of_int w :: rat)"
        using wr(2) by (simp add: field_simps)
      ultimately show ?thesis by simp
    qed
    from round_half_even_up [OF this]
    have "(of_int (q * w + 1) :: rat) \<le> of_int (round_half_even (x * of_int w))"
      by (simp only: of_int_le_iff)
    with wr(1) have "of_int (q * w + 1) / of_int w \<le> to_double x"
      by (simp add: td divide_right_mono)
    moreover have "of_int q < (of_int (q * w + 1) :: rat) / of_int w"
      using wr(1) by (simp add: field_simps)
    ultimately have "of_int q < to_double x" by simp
    with up have "\<lceil>to_double x\<rceil> = q + 1"
      by (intro ceiling_unique) simp_all
    with exact show ?thesis by (simp add: x_def)
  qed
qed

lemma scaled_ceiling:
  assumes "n \<noteq> 0" "\<bar>n\<bar> \<le> MAX_SAFE_INTEGER"
  shows "max (of_int \<lceil>to_double (of_int n * POOL_SCALING_FACTOR)\<rceil>) (5 :: rat)
           = max (of_int \<lceil>(of_int n :: rat) * (2 / 10)\<rceil>) 5"
proof (cases "0 < n")
  case True
  with assms ceil_scaled [of n] show ?thesis by simp
next
  case False
  with assms have n: "n < 0" by simp
  then have "(of_int n :: rat) * POOL_SCALING_FACTOR \<le> 0"
    by (simp add: FACTOR_value mult_le_0_iff)
  from to_double_mono [OF this] have "to_double (of_int n * POOL_SCALING_FACTOR) \<le> 0" by simp
  then have a: "\<lceil>to_double (of_int n * POOL_SCALING_FACTOR)\<rceil> \<le> 0"
    by (simp add: ceiling_le_iff)
  from n have "(of_int n :: rat) * (2 / 10) \<le> 0" by simp
  then have b: "\<lceil>(of_int n :: rat) * (2 / 10)\<rceil> \<le> 0" by (simp add: ceiling_le_iff)
  from a b show ?thesis by (simp add: max_def)
qed

lemma defaultPoolScalingAlgo_safe:
  assumes "n \<noteq> 0" "\<bar>n\<bar> \<le> MAX_SAFE_INTEGER"
  shows "defaultPoolScalingAlgo (of_int n) (of_int c) sp wp g =
     (if (of_int c :: rat) / of_int n < 1 / 10 \<or> 5 / 10 < (of_int c :: rat) / of_int n
      then max (of_int \<lceil>(of_int n :: rat) * (2 / 10)\<rceil>) 5
      else max (of_int c) 5)"
  using assms ratio_below_tenth [OF assms, of c] ratio_above_half [OF assms, of c]
    scaled_ceiling [OF assms]
  by (simp add: defaultPoolScalingAlgo_def DEFAULT_MAX_STRONG_POOL_SIZE_def Let_def)

lemma defaultPoolScalingAlgo_band:
  assumes "10 \<le> p" "p \<le> 50"
  shows "defaultPoolScalingAlgo 100 p sp wp g = p"
proof -
  from assms have "1 / 10 \<le> p / 100" "p / 100 \<le> 5 / 10" by simp_all
  from to_double_mono [OF this(1)] to_double_mono [OF this(2)]
  have "\<not> to_double (p / 100) < MIN_POOL_TO_ACTIVE_RATIO"
    "\<not> MAX_POOL_TO_ACTIVE_RATIO < to_double (p / 100)"
    by (simp_all add: MIN_POOL_TO_ACTIVE_RATIO_def MAX_POOL_TO_ACTIVE_RATIO_def not_less)
  with assms show ?thesis
    by (simp add: defaultPoolScalingAlgo_def DEFAULT_MAX_STRONG_POOL_SIZE_def Let_def)
qed

text \<open>
  Claim C3. Whatever the last three arguments are, the default scaling algorithm gives
  \<open>f(0, c) = 5\<close>, \<open>f(1, 5) = 5\<close>, \<open>f(100, 9) = 20\<close>, \<open>f(100, 51) = 20\<close> and
  \<open>f(100, p) = p\<close> for every \<open>p\<close> from 10 to 50. In general it returns the default 5 when
  the number of active objects is 0; for a number of active objects \<open>n\<close> other than 0 and a
  capacity \<open>c\<close>, both integers of magnitude at most \<open>Number.MAX_SAFE_INTEGER\<close>, it returns
  \<open>max(ceil(n * 0.2), 5)\<close> when the ratio \<open>c / n\<close> lies strictly outside \<open>[0.1, 0.5]\<close>, and
  \<open>max(c, 5)\<close> otherwise, where product, quotient and bounds are those of exact arithmetic.
\<close>

theorem defaultPoolScalingAlgo_cases:
  "defaultPoolScalingAlgo 0 c sp wp g = 5
   \<and> defaultPoolScalingAlgo 1 5 sp wp g = 5
   \<and> defaultPoolScalingAlgo 100 9 sp wp g = 20
   \<and> defaultPoolScalingAlgo 100 51 sp wp g = 20
   \<and> (\<forall>p. 10 \<le> p \<and> p \<le> 50 \<longrightarrow> defaultPoolScalingAlgo 100 p sp wp g = p)
   \<and> defaultPoolScalingAlgo 0 c sp wp g = DEFAULT_MAX_STRONG_POOL_SIZE
   \<and> (n \<noteq> 0 \<and> \<bar>n\<bar> \<le> MAX_SAFE_INTEGER \<and> \<bar>k\<bar> \<le> MAX_SAFE_INTEGER
        \<and> ((of_int k :: rat) / of_int n < 1 / 10 \<or> 5 / 10 < (of_int k :: rat) / of_int n)
        \<longrightarrow> defaultPoolScalingAlgo (of_int n) (of_int k) sp wp g
              = max (of_int \<lceil>(of_int n :: rat) * (2 / 10)\<rceil>) 5)
   \<and> (n \<noteq> 0 \<and> \<bar>n\<bar> \<le> MAX_SAFE_INTEGER \<and> \<bar>k\<bar> \<le> MAX_SAFE_INTEGER
        \<and> 1 / 10 \<le> (of_int k :: rat) / of_int n \<and> (of_int k :: rat) / of_int n \<le> 5 / 10
        \<longrightarrow> defaultPoolScalingAlgo (of_int n) (of_int k) sp wp g = max (of_int k) 5)"
proof -
  have zero: "defaultPoolScalingAlgo 0 c sp wp g = 5"
    "defaultPoolScalingAlgo 0 c sp wp g = DEFAULT_MAX_STRONG_POOL_SIZE"
    by (simp_all add: defaultPoolScalingAlgo_def DEFAULT_MAX_STRONG_POOL_SIZE_def)
  have lit: "defaultPoolScalingAlgo 1 5 sp wp g = 5"
    "defaultPoolScalingAlgo 100 9 sp wp g = 20" "defaultPoolScalingAlgo 100 51 sp wp g = 20"
    using defaultPoolScalingAlgo_safe [of 1 5 sp wp g] defaultPoolScalingAlgo_safe [of 100 9 sp wp g]
      defaultPoolScalingAlgo_safe [of 100 51 sp wp g]
    by (simp_all add: MAX_SAFE_INTEGER_def)
  have band: "\<forall>p. 10 \<le> p \<and> p \<le> 50 \<longrightarrow> defaultPoolScalingAlgo 100 p sp wp g = p"
    by (simp add: defaultPoolScalingAlgo_band)
  have out: "n \<noteq> 0 \<and> \<bar>n\<bar> \<le> MAX_SAFE_INTEGER \<and> \<bar>k\<bar> \<le> MAX_SAFE_INTEGER
        \<and> ((of_int k :: rat) / of_int n < 1 / 10 \<or> 5 / 10 < (of_int k :: rat) / of_int n)
        \<longrightarrow> defaultPoolScalingAlgo (of_int n) (of_int k) sp wp g
              = max (of_int \<lceil>(of_int n :: rat) * (2 / 10)\<rceil>) 5"
    using defaultPoolScalingAlgo_safe [of n k sp wp g] by auto
  have inside: "n \<noteq> 0 \<and> \<bar>n\<bar> \<le> MAX_SAFE_INTEGER \<and> \<bar>k\<bar> \<le> MAX_SAFE_INTEGER
        \<and> 1 / 10 \<le> (of_int k :: rat) / of_int n \<and> (of_int k :: rat) / of_int n \<le> 5 / 10
        \<longrightarrow> defaultPoolScalingAlgo (of_int n) (of_int k) sp wp g = max (of_int k) 5"
    using defaultPoolScalingAlgo_safe [of n k sp wp g] by auto
  from zero lit band out inside show ?thesis by blast
qed

theorem defaultPoolScalingAlgo_cases_witness:
  "((10::rat) \<le> 37 \<and> (37::rat) \<le> 50) \<and> defaultPoolScalingAlgo 100 37 0 0 0 = 37
   \<and> defaultPoolScalingAlgo 0 40 0 0 0 = 5
   \<and> ((7::int) \<noteq> 0 \<and> \<bar>7::int\<bar> \<le> MAX_SAFE_INTEGER \<and> \<bar>40::int\<bar> \<le> MAX_SAFE_INTEGER
        \<and> 5 / 10 < (of_int 40 :: rat) / of_int 7)
   \<and> defaultPoolScalingAlgo 7 40 0 0 0 = 5
   \<and> ((20::int) \<noteq> 0 \<and> \<bar>20::int\<bar> \<le> MAX_SAFE_INTEGER \<and> \<bar>8::int\<bar> \<le> MAX_SAFE_INTEGER
        \<and> (1 / 10 :: rat) \<le> of_int 8 / of_int 20 \<and> (of_int 8 :: rat) / of_int 20 \<le> 5 / 10)
   \<and> defaultPoolScalingAlgo 20 8 0 0 0 = 8"
  using defaultPoolScalingAlgo_cases [of 40 0 0 0 7 40]
    defaultPoolScalingAlgo_cases [of 40 0 0 0 20 8]
  by (simp add: MAX_SAFE_INTEGER_def)

lemma defaultPoolScalingAlgo_at_least_one: "at_least_one defaultPoolScalingAlgo"
  by (auto simp: at_least_one_def defaultPoolScalingAlgo_def DEFAULT_MAX_STRONG_POOL_SIZE_def
      Let_def le_max_iff_disj)

section \<open>Properties of the pool\<close>

subsection \<open>Sets in insertion order\<close>

lemma set_set_add [simp]: "set (set_add x xs) = insert x (set xs)"
  by (auto simp: set_add_def)

lemma distinct_set_add [simp]: "distinct (set_add x xs) = distinct xs"
  by (simp add: set_add_def)

lemma set_set_delete [simp]: "set (set_delete x xs) = set xs - {x}"
  by (auto simp: set_delete_def)

lemma distinct_set_delete [simp]: "distinct xs \<Longrightarrow> distinct (set_delete x xs)"
  by (simp add: set_delete_def distinct_removeAll)

lemma set_fold_set_add:
  "set (fold (\<lambda>ob. set_add (getWeakRef ob)) xs w) = set xs \<union> set w"
  by (induction xs arbitrary: w) (auto simp: getWeakRef_def)

lemma distinct_fold_set_add:
  "distinct (fold (\<lambda>ob. set_add (getWeakRef ob)) xs w) = distinct w"
  by (induction xs arbitrary: w) auto

lemma take_drop_disjoint: "distinct xs \<Longrightarrow> set (take k xs) \<inter> set (drop k xs) = {}"
  by (simp add: set_take_disj_set_drop_if_distinct)

lemma resolves_None: "deref gone w = None \<Longrightarrow> \<not> resolves gone w"
  by (simp add: resolves_def)

lemma resolves_Some: "deref gone w = Some ob \<Longrightarrow> resolves gone w"
  by (simp add: resolves_def)

lemma resolves_set_add: "resolves (set_add ob gone) w \<Longrightarrow> resolves gone w"
  by (auto simp: resolves_def deref_def split: if_splits)

subsection \<open>What each operation leaves alone\<close>

lemma acquire_frame:
  "numGC (snd (acquire c s)) = numGC s"
  "numActiveGC (snd (acquire c s)) = numActiveGC s"
  "maxStrongPoolSize (snd (acquire c s)) = maxStrongPoolSize s"
  "poolSizeUpdateScheduled (snd (acquire c s)) = poolSizeUpdateScheduled s"
  "timers (snd (acquire c s)) = timers s"
  "collected (snd (acquire c s)) = collected s"
  "poolScalingAlgorithm (snd (acquire c s)) = poolScalingAlgorithm s"
  by (simp_all add: acquire_def Let_def split: prod.splits sum.splits)

lemma release_frame:
  "numGC (snd (release ob r s)) = numGC s"
  "numActiveGC (snd (release ob r s)) = numActiveGC s"
  "maxStrongPoolSize (snd (release ob r s)) = maxStrongPoolSize s"
  "collected (snd (release ob r s)) = collected s"
  "poolScalingAlgorithm (snd (release ob r s)) = poolScalingAlgorithm s"
  "createCalls (snd (release ob r s)) = createCalls s"
  by (simp_all add: release_def release_begin_def Let_def split: option.splits)

lemma updatePoolSize_frame:
  "numActiveGC (snd (updatePoolSize s)) = numActiveGC s"
  "timers (snd (updatePoolSize s)) = timers s"
  "collected (snd (updatePoolSize s)) = collected s"
  "activeObjects (snd (updatePoolSize s)) = activeObjects s"
  "poolScalingAlgorithm (snd (updatePoolSize s)) = poolScalingAlgorithm s"
  "createCalls (snd (updatePoolSize s)) = createCalls s"
  "maxStrongPoolSize (snd (updatePoolSize s)) = newMaxStrongPoolSize s"
  by (simp_all add: updatePoolSize_def updatePoolSize_finish_def Let_def
      split: prod.splits sum.splits)

lemma updatePoolSize_numGC:
  "numGC (snd (updatePoolSize s)) = (if fst (updatePoolSize s) = Inr () then 0 else numGC s)"
  by (simp add: updatePoolSize_def updatePoolSize_finish_def Let_def
      split: prod.splits sum.splits)

lemma updatePoolSize_scheduled:
  "poolSizeUpdateScheduled (snd (updatePoolSize s)) =
     (if fst (updatePoolSize s) = Inr () then False else poolSizeUpdateScheduled s)"
  by (simp add: updatePoolSize_def updatePoolSize_finish_def Let_def
      split: prod.splits sum.splits)

lemma objFinalizer_frame:
  "strongPool (objFinalizer w s) = strongPool s"
  "maxStrongPoolSize (objFinalizer w s) = maxStrongPoolSize s"
  "poolSizeUpdateScheduled (objFinalizer w s) = poolSizeUpdateScheduled s"
  "timers (objFinalizer w s) = timers s"
  "collected (objFinalizer w s) = collected s"
  "poolScalingAlgorithm (objFinalizer w s) = poolScalingAlgorithm s"
  "createCalls (objFinalizer w s) = createCalls s"
  by (simp_all add: objFinalizer_def Let_def)

lemma objFinalizer_counters:
  "numGC s \<le> numGC (objFinalizer w s)" "numGC (objFinalizer w s) \<le> numGC s + 1"
  "numActiveGC s \<le> numActiveGC (objFinalizer w s)"
  "numActiveGC (objFinalizer w s) \<le> numActiveGC s + 1"
  by (simp_all add: objFinalizer_def Let_def)

lemma runTimer_frame:
  "numActiveGC (runTimer s) = numActiveGC s"
  "collected (runTimer s) = collected s"
  "poolScalingAlgorithm (runTimer s) = poolScalingAlgorithm s"
  by (simp_all add: runTimer_def updatePoolSize_frame)

lemma step_algorithm: "poolScalingAlgorithm (step e s) = poolScalingAlgorithm s"
  by (cases e)
     (simp_all add: acquire_frame release_frame runTimer_frame objFinalizer_frame)

lemma reachable_algorithm: "reachable algo s \<Longrightarrow> poolScalingAlgorithm s = algo"
  by (induction rule: reachable.induct) (simp_all add: new_WeakPool_def step_algorithm)

lemma reachable_run: "reachable algo s \<Longrightarrow> reachable algo (run es s)"
proof (induction es arbitrary: s)
  case Nil
  then show ?case by (simp add: run_def)
next
  case (Cons e es)
  from Cons.prems have "reachable algo (step e s)" by (rule reachable_step)
  then have "reachable algo (run es (step e s))" by (rule Cons.IH)
  then show ?case by (simp add: run_def)
qed

subsection \<open>Getters and queries\<close>

lemmas getter_defs = get_numActiveObjects_def
      get_curMaxStrongPoolSize_def get_numStrongPooledRefs_def get_numWeakPooledRefs_def
      get_numGC_def

text \<open>
  The private counter behind the getter changes only when the finalization callback runs for
  a handle that is in the active set and not in the weak pool.
\<close>

lemma step_numActiveGC_field:
  assumes "numActiveGC (step e s) \<noteq> numActiveGC s"
  shows "\<exists>w. e = Finalize w \<and> set_has w (activeObjects s) \<and> \<not> set_has w (weakPool s)
            \<and> numActiveGC (step e s) = numActiveGC s + 1"
proof (cases e)
  case (Finalize w)
  with assms show ?thesis
    by (auto simp: objFinalizer_def Let_def split: if_splits)
qed (use assms in \<open>simp_all add: acquire_frame release_frame runTimer_frame\<close>)

lemma get_numActiveGC_None: "get_numActiveGC s = None"
proof (cases "get_numActiveGC s")
  case None
  then show ?thesis .
next
  case (Some y)
  have False
    by (rule get_numActiveGC.raw_induct [where P = "\<lambda>x y. False", OF _ Some]) blast
  then show ?thesis ..
qed

text \<open>
  Claim C2, the part about reading the statistic. The claim has the getter \<open>numActiveGC\<close>
  return 0 on a pool that has only acquired and released. In the code the getter calls
  itself, so on a fresh pool, as on any other, the read returns no value at all.
\<close>

theorem get_numActiveGC_no_value:
  "get_numActiveGC (new_WeakPool defaultPoolScalingAlgo) = None"
  by (rule get_numActiveGC_None)

text \<open>
  Claim C10. The three introspection queries and the getters \<open>numActiveObjects\<close>,
  \<open>curMaxStrongPoolSize\<close>, \<open>numStrongPooledRefs\<close>, \<open>numWeakPooledRefs\<close> and \<open>numGC\<close>
  leave the whole state as it was: tiers, active set, counters, capacity and debounce flag.
\<close>

theorem queries_keep_state:
  "snd (isActive ob s) = s \<and> snd (isStrongPooled ob s) = s \<and> snd (isWeakPooled ob s) = s
   \<and> snd (get_numActiveObjects s) = s \<and> snd (get_curMaxStrongPoolSize s) = s
   \<and> snd (get_numStrongPooledRefs s) = s \<and> snd (get_numWeakPooledRefs s) = s
   \<and> snd (get_numGC s) = s"
  by (simp add: isActive_def isStrongPooled_def isWeakPooled_def get_numActiveObjects_def
      get_curMaxStrongPoolSize_def get_numStrongPooledRefs_def get_numWeakPooledRefs_def
      get_numGC_def)

subsection \<open>The loops\<close>

lemma of_nat_eq_of_int_iff: "((of_nat n :: rat) = of_int c) = (int n = c)"
proof -
  have "(of_nat n :: rat) = of_int (int n)" by simp
  then show ?thesis by (simp only: of_int_eq_iff)
qed

lemma of_nat_less_of_int_iff: "((of_nat n :: rat) < of_int c) = (int n < c)"
proof -
  have "(of_nat n :: rat) = of_int (int n)" by simp
  then show ?thesis by (simp only: of_int_less_iff)
qed

lemma of_int_less_of_nat_iff: "((of_int c :: rat) < of_nat n) = (c < int n)"
proof -
  have "(of_nat n :: rat) = of_int (int n)" by simp
  then show ?thesis by (simp only: of_int_less_iff)
qed

lemma shrink_Nil: "updatePoolSize_shrink cap [] weak = (Inl TypeError, [], weak)"
  by (subst updatePoolSize_shrink.simps) simp

lemma shrink_snoc:
  "updatePoolSize_shrink cap (xs @ [x]) weak =
     (if cap < of_nat (length xs) then updatePoolSize_shrink cap xs (set_add (getWeakRef x) weak)
      else (Inr (), xs, set_add (getWeakRef x) weak))"
  by (subst updatePoolSize_shrink.simps) (simp add: Let_def)

lemma shrink_result:
  "0 \<le> cap \<Longrightarrow> cap < of_nat (length strong) \<Longrightarrow>
     updatePoolSize_shrink cap strong weak =
       (Inr (), take (nat \<lfloor>cap\<rfloor>) strong,
        fold (\<lambda>ob. set_add (getWeakRef ob)) (rev (drop (nat \<lfloor>cap\<rfloor>) strong)) weak)"
proof (induction strong arbitrary: weak rule: rev_induct)
  case Nil
  then show ?case by simp
next
  case (snoc x xs)
  show ?case
  proof (cases "cap < of_nat (length xs)")
    case True
    then have "\<lfloor>cap\<rfloor> < int (length xs)" by (simp add: floor_less_iff)
    then have le: "nat \<lfloor>cap\<rfloor> \<le> length xs" by linarith
    from True snoc.IH [OF snoc.prems(1) True] le show ?thesis
      by (simp add: shrink_snoc)
  next
    case False
    then have "of_int (int (length xs)) \<le> cap" by simp
    moreover from snoc.prems(2) have "cap < of_int (int (length xs)) + 1" by simp
    ultimately have "\<lfloor>cap\<rfloor> = int (length xs)" by (rule floor_unique)
    then have "nat \<lfloor>cap\<rfloor> = length xs" by simp
    with False show ?thesis by (simp add: shrink_snoc)
  qed
qed

lemma shrink_negative:
  "cap < 0 \<Longrightarrow> updatePoolSize_shrink cap strong weak
      = (Inl TypeError, [], fold (\<lambda>ob. set_add (getWeakRef ob)) (rev strong) weak)"
proof (induction strong arbitrary: weak rule: rev_induct)
  case Nil
  show ?case by (simp add: shrink_Nil)
next
  case (snoc x xs)
  from snoc.prems have "cap < of_nat (length xs)"
    by (rule less_le_trans) simp
  with snoc show ?case by (simp add: shrink_snoc)
qed

lemma shrink_shape:
  "\<exists>k. snd (updatePoolSize_shrink cap strong weak) =
      (take k strong, fold (\<lambda>ob. set_add (getWeakRef ob)) (rev (drop k strong)) weak)"
proof (cases "cap < 0")
  case True
  then show ?thesis by (intro exI [of _ 0]) (simp add: shrink_negative)
next
  case False
  show ?thesis
  proof (cases "cap < of_nat (length strong)")
    case True
    with False show ?thesis by (intro exI [of _ "nat \<lfloor>cap\<rfloor>"]) (simp add: shrink_result)
  next
    case c: False
    show ?thesis
    proof (cases strong rule: rev_cases)
      case Nil
      then show ?thesis by (simp add: shrink_Nil)
    next
      case (snoc xs x)
      from c snoc have "\<not> cap < of_nat (length xs)" by simp
      with snoc show ?thesis
        by (intro exI [of _ "length xs"]) (simp add: shrink_snoc)
    qed
  qed
qed

lemma promote_shape:
  "\<exists>k. updatePoolSize_promote gone cap weak strong =
          (drop k weak, strong @ filter (resolves gone) (take k weak))"
proof (induction weak arbitrary: strong)
  case Nil
  show ?case by simp
next
  case (Cons w rest)
  show ?case
  proof (cases "deref gone w")
    case None
    from Cons.IH [of strong] obtain k where
      "updatePoolSize_promote gone cap rest strong =
          (drop k rest, strong @ filter (resolves gone) (take k rest))"
      by blast
    with None resolves_None [OF None] show ?thesis
      by (intro exI [of _ "Suc k"]) simp
  next
    case (Some ob)
    then have ob: "ob = w" by (simp add: deref_def split: if_splits)
    show ?thesis
    proof (cases "of_nat (length (strong @ [ob])) = cap")
      case True
      with Some ob resolves_Some [OF Some] show ?thesis
        by (intro exI [of _ "Suc 0"]) simp
    next
      case False
      from Cons.IH [of "strong @ [ob]"] obtain k where
        "updatePoolSize_promote gone cap rest (strong @ [ob]) =
            (drop k rest, (strong @ [ob]) @ filter (resolves gone) (take k rest))"
        by blast
      with Some False ob resolves_Some [OF Some] show ?thesis
        by (intro exI [of _ "Suc k"]) simp
    qed
  qed
qed

lemma promote_result:
  assumes "int (length strong) < c"
  shows "updatePoolSize_promote gone (of_int c) weak strong =
           (after_resolving (nat c - length strong) (resolves gone) weak,
            strong @ take (nat c - length strong) (filter (resolves gone) weak))"
  using assms
proof (induction weak arbitrary: strong)
  case Nil
  then show ?case by (cases "nat c - length strong") simp_all
next
  case (Cons w rest)
  from Cons.prems obtain m where m: "nat c - length strong = Suc m"
    by (cases "nat c - length strong") auto
  show ?case
  proof (cases "deref gone w")
    case None
    with Cons.IH [OF Cons.prems] resolves_None [OF None] m show ?thesis by simp
  next
    case (Some ob)
    then have ob: "ob = w" by (simp add: deref_def split: if_splits)
    show ?thesis
    proof (cases "int (length (strong @ [ob])) = c")
      case True
      then have "m = 0" using m by simp
      with Some True ob resolves_Some [OF Some] m show ?thesis
        by (simp add: of_nat_eq_of_int_iff del: of_nat_Suc)
    next
      case False
      with Cons.prems have lt: "int (length (strong @ [ob])) < c" by simp
      from m have m': "nat c - length (strong @ [ob]) = m" by simp
      from False have ne: "(of_nat (length (strong @ [ob])) :: rat) \<noteq> of_int c"
        by (simp only: of_nat_eq_of_int_iff) simp
      from Cons.IH [OF lt] Some ob resolves_Some [OF Some] m m' ne show ?thesis
        by (simp del: of_nat_Suc)
    qed
  qed
qed

lemma after_resolving_stops:
  "length (take n (filter P ws)) = n \<or> after_resolving n P ws = []"
  by (induction n P ws rule: after_resolving.induct) auto

lemma after_resolving_suffix:
  "\<exists>k. after_resolving n P ws = drop k ws \<and> filter P (take k ws) = take n (filter P ws)"
proof (induction n P ws rule: after_resolving.induct)
  case (1 P ws)
  show ?case by (intro exI [of _ 0]) simp
next
  case (2 n P)
  show ?case by simp
next
  case (3 n P w ws)
  show ?case
  proof (cases "P w")
    case True
    with 3(1) obtain k where
      "after_resolving n P ws = drop k ws \<and> filter P (take k ws) = take n (filter P ws)"
      by blast
    with True show ?thesis by (intro exI [of _ "Suc k"]) simp
  next
    case False
    with 3(2) obtain k where
      "after_resolving (Suc n) P ws = drop k ws
        \<and> filter P (take k ws) = take (Suc n) (filter P ws)"
      by blast
    with False show ?thesis by (intro exI [of _ "Suc k"]) simp
  qed
qed

lemma backfill_cases:
  "(acquire_backfill gone weak strong = ([], strong) \<and> (\<forall>w \<in> set weak. \<not> resolves gone w))
   \<or> (\<exists>pre w rest. weak = pre @ w # rest \<and> acquire_backfill gone weak strong = (rest, strong @ [w])
         \<and> (\<forall>x \<in> set pre. \<not> resolves gone x) \<and> resolves gone w)"
proof (induction weak)
  case Nil
  show ?case by simp
next
  case (Cons a weak)
  show ?case
  proof (cases "deref gone a")
    case None
    from Cons.IH show ?thesis
    proof
      assume "acquire_backfill gone weak strong = ([], strong) \<and> (\<forall>w \<in> set weak. \<not> resolves gone w)"
      with None resolves_None [OF None] show ?thesis by simp
    next
      assume "\<exists>pre w rest. weak = pre @ w # rest
         \<and> acquire_backfill gone weak strong = (rest, strong @ [w])
         \<and> (\<forall>x \<in> set pre. \<not> resolves gone x) \<and> resolves gone w"
      then obtain pre w rest where
        h: "weak = pre @ w # rest" "acquire_backfill gone weak strong = (rest, strong @ [w])"
          "\<forall>x \<in> set pre. \<not> resolves gone x" "resolves gone w"
        by blast
      have "a # weak = (a # pre) @ w # rest" using h(1) by simp
      moreover have "acquire_backfill gone (a # weak) strong = (rest, strong @ [w])"
        using None h(2) by simp
      moreover have "\<forall>x \<in> set (a # pre). \<not> resolves gone x"
        using h(3) resolves_None [OF None] by simp
      ultimately show ?thesis using h(4) by blast
    qed
  next
    case (Some ob)
    then have "ob = a" by (simp add: deref_def split: if_splits)
    with Some resolves_Some [OF Some] have
      "a # weak = [] @ a # weak \<and> acquire_backfill gone (a # weak) strong = (weak, strong @ [a])
         \<and> (\<forall>x \<in> set []. \<not> resolves gone x) \<and> resolves gone a"
      by simp
    then show ?thesis by blast
  qed
qed

subsection \<open>The rescale task\<close>

lemma updatePoolSize_shrinks:
  assumes "0 \<le> newMaxStrongPoolSize s" "newMaxStrongPoolSize s < of_nat (length (strongPool s))"
  shows "updatePoolSize s =
     (Inr (), s\<lparr> maxStrongPoolSize := newMaxStrongPoolSize s,
                 weakPool := fold (\<lambda>ob. set_add (getWeakRef ob))
                    (rev (drop (nat \<lfloor>newMaxStrongPoolSize s\<rfloor>) (strongPool s))) (weakPool s),
                 strongPool := take (nat \<lfloor>newMaxStrongPoolSize s\<rfloor>) (strongPool s),
                 numGC := 0, poolSizeUpdateScheduled := False \<rparr>)"
  using assms
  by (simp add: updatePoolSize_def shrink_result updatePoolSize_finish_def)

lemma updatePoolSize_promotes_shape:
  assumes "of_nat (length (strongPool s)) < newMaxStrongPoolSize s" "weakPool s \<noteq> []"
  shows "\<exists>k. updatePoolSize s =
     (Inr (), s\<lparr> maxStrongPoolSize := newMaxStrongPoolSize s,
                 weakPool := drop k (weakPool s),
                 strongPool := strongPool s @ filter (resolves (collected s)) (take k (weakPool s)),
                 numGC := 0, poolSizeUpdateScheduled := False \<rparr>)"
proof -
  from promote_shape [of "collected s" "newMaxStrongPoolSize s" "weakPool s" "strongPool s"]
  obtain k where
    "updatePoolSize_promote (collected s) (newMaxStrongPoolSize s) (weakPool s) (strongPool s) =
       (drop k (weakPool s), strongPool s @ filter (resolves (collected s)) (take k (weakPool s)))"
    by blast
  with assms have "updatePoolSize s =
     (Inr (), s\<lparr> maxStrongPoolSize := newMaxStrongPoolSize s,
                 weakPool := drop k (weakPool s),
                 strongPool := strongPool s @ filter (resolves (collected s)) (take k (weakPool s)),
                 numGC := 0, poolSizeUpdateScheduled := False \<rparr>)"
    by (simp add: updatePoolSize_def updatePoolSize_finish_def not_less_iff_gr_or_eq)
  then show ?thesis by blast
qed

lemma updatePoolSize_promotes:
  assumes "newMaxStrongPoolSize s = of_int c" "int (length (strongPool s)) < c"
    "weakPool s \<noteq> []"
  shows "updatePoolSize s =
     (Inr (), s\<lparr> maxStrongPoolSize := newMaxStrongPoolSize s,
                 weakPool := after_resolving (nat c - length (strongPool s))
                               (resolves (collected s)) (weakPool s),
                 strongPool := strongPool s
                    @ take (nat c - length (strongPool s))
                        (filter (resolves (collected s)) (weakPool s)),
                 numGC := 0, poolSizeUpdateScheduled := False \<rparr>)"
proof -
  from assms(2) have lt: "(of_nat (length (strongPool s)) :: rat) < of_int c"
    by (simp only: of_nat_less_of_int_iff)
  then have "\<not> (of_int c :: rat) < of_nat (length (strongPool s))" by simp
  with lt assms(1,3) promote_result [OF assms(2), of "collected s" "weakPool s"] show ?thesis
    by (simp add: updatePoolSize_def updatePoolSize_finish_def)
qed

lemma updatePoolSize_keeps:
  assumes "\<not> newMaxStrongPoolSize s < of_nat (length (strongPool s))"
    "\<not> (of_nat (length (strongPool s)) < newMaxStrongPoolSize s \<and> weakPool s \<noteq> [])"
  shows "updatePoolSize s =
     (Inr (), s\<lparr> maxStrongPoolSize := newMaxStrongPoolSize s,
                 numGC := 0, poolSizeUpdateScheduled := False \<rparr>)"
  using assms by (auto simp: updatePoolSize_def updatePoolSize_finish_def)

lemma updatePoolSize_tiers:
  "(\<exists>k. strongPool (snd (updatePoolSize s)) = take k (strongPool s)
        \<and> weakPool (snd (updatePoolSize s)) =
            fold (\<lambda>ob. set_add (getWeakRef ob)) (rev (drop k (strongPool s))) (weakPool s))
   \<or> (\<exists>k. strongPool (snd (updatePoolSize s)) =
              strongPool s @ filter (resolves (collected s)) (take k (weakPool s))
        \<and> weakPool (snd (updatePoolSize s)) = drop k (weakPool s))"
proof -
  consider (shrink) "newMaxStrongPoolSize s < of_nat (length (strongPool s))"
    | (promote) "of_nat (length (strongPool s)) < newMaxStrongPoolSize s" "weakPool s \<noteq> []"
    | (keep) "\<not> newMaxStrongPoolSize s < of_nat (length (strongPool s))"
        "\<not> (of_nat (length (strongPool s)) < newMaxStrongPoolSize s \<and> weakPool s \<noteq> [])"
    by blast
  then show ?thesis
  proof cases
    case shrink
    from shrink_shape [of "newMaxStrongPoolSize s" "strongPool s" "weakPool s"] obtain k where
      k: "snd (updatePoolSize_shrink (newMaxStrongPoolSize s) (strongPool s) (weakPool s)) =
           (take k (strongPool s),
            fold (\<lambda>ob. set_add (getWeakRef ob)) (rev (drop k (strongPool s))) (weakPool s))"
      by blast
    have "strongPool (snd (updatePoolSize s)) = take k (strongPool s)
        \<and> weakPool (snd (updatePoolSize s)) =
            fold (\<lambda>ob. set_add (getWeakRef ob)) (rev (drop k (strongPool s))) (weakPool s)"
      using shrink k
      by (cases "updatePoolSize_shrink (newMaxStrongPoolSize s) (strongPool s) (weakPool s)")
         (auto simp: updatePoolSize_def updatePoolSize_finish_def Let_def split: sum.splits)
    then show ?thesis by blast
  next
    case promote
    from updatePoolSize_promotes_shape [OF promote] obtain k where
      "updatePoolSize s =
         (Inr (), s\<lparr> maxStrongPoolSize := newMaxStrongPoolSize s,
                 weakPool := drop k (weakPool s),
                 strongPool := strongPool s @ filter (resolves (collected s)) (take k (weakPool s)),
                 numGC := 0, poolSizeUpdateScheduled := False \<rparr>)"
      by blast
    then have "strongPool (snd (updatePoolSize s)) =
              strongPool s @ filter (resolves (collected s)) (take k (weakPool s))
        \<and> weakPool (snd (updatePoolSize s)) = drop k (weakPool s)"
      by simp
    then show ?thesis by blast
  next
    case keep
    from updatePoolSize_keeps [OF keep] have
      "strongPool (snd (updatePoolSize s)) = take (length (strongPool s)) (strongPool s)
        \<and> weakPool (snd (updatePoolSize s)) =
            fold (\<lambda>ob. set_add (getWeakRef ob)) (rev (drop (length (strongPool s)) (strongPool s)))
              (weakPool s)"
      by simp
    then show ?thesis by blast
  qed
qed

text \<open>
  Claim C7, as the code has it. Let the rescale task run from any state in which the scaling
  algorithm answers the statistics before the rescale (active count, old capacity, strong
  length, weak size, \<open>numGC\<close>) with an integer that is not negative. The task returns;
  afterwards \<open>curMaxStrongPoolSize\<close> is that answer, \<open>numGC\<close> is 0, the debounce flag is
  cleared and the strong tier is no longer than the new capacity. If the new capacity is
  below the strong length, the strong tier is cut down to the capacity and the handles of
  the popped objects are added to the weak tier, last object first. If it is above and the
  weak tier is not empty, the handles of the weak tier are visited in order and removed;
  those that resolve are pushed onto the strong tier, the others are dropped, until the
  capacity is reached or the weak tier is exhausted: the weak tier keeps exactly the handles
  after the last one visited. Otherwise both tiers stay as they are.
\<close>

theorem updatePoolSize_rescales:
  assumes "newMaxStrongPoolSize s = of_int c" "0 \<le> c"
  shows "fst (updatePoolSize s) = Inr ()
    \<and> newMaxStrongPoolSize s =
        poolScalingAlgorithm s (fst (get_numActiveObjects s)) (fst (get_curMaxStrongPoolSize s))
          (fst (get_numStrongPooledRefs s)) (fst (get_numWeakPooledRefs s)) (fst (get_numGC s))
    \<and> maxStrongPoolSize (snd (updatePoolSize s)) = newMaxStrongPoolSize s
    \<and> numGC (snd (updatePoolSize s)) = 0
    \<and> \<not> poolSizeUpdateScheduled (snd (updatePoolSize s))
    \<and> int (length (strongPool (snd (updatePoolSize s)))) \<le> c
    \<and> (c < int (length (strongPool s)) \<longrightarrow>
          strongPool (snd (updatePoolSize s)) = take (nat c) (strongPool s)
          \<and> weakPool (snd (updatePoolSize s)) =
               fold (\<lambda>ob. set_add (getWeakRef ob))
                 (rev (drop (nat c) (strongPool s))) (weakPool s))
    \<and> (int (length (strongPool s)) < c \<and> weakPool s \<noteq> [] \<longrightarrow>
          strongPool (snd (updatePoolSize s)) =
             strongPool s @ take (nat c - length (strongPool s))
                              (filter (resolves (collected s)) (weakPool s))
          \<and> weakPool (snd (updatePoolSize s)) =
               after_resolving (nat c - length (strongPool s)) (resolves (collected s))
                 (weakPool s)
          \<and> (\<exists>k. weakPool (snd (updatePoolSize s)) = drop k (weakPool s)
                \<and> filter (resolves (collected s)) (take k (weakPool s)) =
                    take (nat c - length (strongPool s))
                              (filter (resolves (collected s)) (weakPool s)))
          \<and> (int (length (strongPool (snd (updatePoolSize s)))) = c
               \<or> weakPool (snd (updatePoolSize s)) = []))
    \<and> (\<not> c < int (length (strongPool s))
        \<and> \<not> (int (length (strongPool s)) < c \<and> weakPool s \<noteq> []) \<longrightarrow>
          strongPool (snd (updatePoolSize s)) = strongPool s
          \<and> weakPool (snd (updatePoolSize s)) = weakPool s)"
proof -
  have algo: "newMaxStrongPoolSize s =
        poolScalingAlgorithm s (fst (get_numActiveObjects s)) (fst (get_curMaxStrongPoolSize s))
          (fst (get_numStrongPooledRefs s)) (fst (get_numWeakPooledRefs s)) (fst (get_numGC s))"
    by (simp add: newMaxStrongPoolSize_def getter_defs)
  have lt1: "(newMaxStrongPoolSize s < of_nat (length (strongPool s)))
               = (c < int (length (strongPool s)))"
    unfolding assms(1) by (rule of_int_less_of_nat_iff)
  have lt2: "(of_nat (length (strongPool s)) < newMaxStrongPoolSize s)
               = (int (length (strongPool s)) < c)"
    unfolding assms(1) by (rule of_nat_less_of_int_iff)
  have nn: "0 \<le> newMaxStrongPoolSize s" "\<lfloor>newMaxStrongPoolSize s\<rfloor> = c"
    using assms by simp_all
  consider (shrink) "c < int (length (strongPool s))"
    | (promote) "int (length (strongPool s)) < c" "weakPool s \<noteq> []"
    | (keep) "\<not> c < int (length (strongPool s))"
        "\<not> (int (length (strongPool s)) < c \<and> weakPool s \<noteq> [])"
    by blast
  then have rest: "fst (updatePoolSize s) = Inr ()
    \<and> maxStrongPoolSize (snd (updatePoolSize s)) = newMaxStrongPoolSize s
    \<and> numGC (snd (updatePoolSize s)) = 0
    \<and> \<not> poolSizeUpdateScheduled (snd (updatePoolSize s))
    \<and> int (length (strongPool (snd (updatePoolSize s)))) \<le> c
    \<and> (c < int (length (strongPool s)) \<longrightarrow>
          strongPool (snd (updatePoolSize s)) = take (nat c) (strongPool s)
          \<and> weakPool (snd (updatePoolSize s)) =
               fold (\<lambda>ob. set_add (getWeakRef ob))
                 (rev (drop (nat c) (strongPool s))) (weakPool s))
    \<and> (int (length (strongPool s)) < c \<and> weakPool s \<noteq> [] \<longrightarrow>
          strongPool (snd (updatePoolSize s)) =
             strongPool s @ take (nat c - length (strongPool s))
                              (filter (resolves (collected s)) (weakPool s))
          \<and> weakPool (snd (updatePoolSize s)) =
               after_resolving (nat c - length (strongPool s)) (resolves (collected s))
                 (weakPool s)
          \<and> (\<exists>k. weakPool (snd (updatePoolSize s)) = drop k (weakPool s)
                \<and> filter (resolves (collected s)) (take k (weakPool s)) =
                    take (nat c - length (strongPool s))
                              (filter (resolves (collected s)) (weakPool s)))
          \<and> (int (length (strongPool (snd (updatePoolSize s)))) = c
               \<or> weakPool (snd (updatePoolSize s)) = []))
    \<and> (\<not> c < int (length (strongPool s))
        \<and> \<not> (int (length (strongPool s)) < c \<and> weakPool s \<noteq> []) \<longrightarrow>
          strongPool (snd (updatePoolSize s)) = strongPool s
          \<and> weakPool (snd (updatePoolSize s)) = weakPool s)"
  proof cases
    case shrink
    from shrink have "newMaxStrongPoolSize s < of_nat (length (strongPool s))"
      by (simp only: lt1)
    from updatePoolSize_shrinks [OF nn(1) this] shrink assms(2) show ?thesis
      by (simp add: nn(2))
  next
    case promote
    let ?n = "nat c - length (strongPool s)"
    let ?live = "filter (resolves (collected s)) (weakPool s)"
    let ?rest = "after_resolving ?n (resolves (collected s)) (weakPool s)"
    from updatePoolSize_promotes [OF assms(1) promote]
    have u: "updatePoolSize s =
         (Inr (), s\<lparr> maxStrongPoolSize := newMaxStrongPoolSize s,
                 weakPool := ?rest, strongPool := strongPool s @ take ?n ?live,
                 numGC := 0, poolSizeUpdateScheduled := False \<rparr>)" .
    from after_resolving_suffix [of ?n "resolves (collected s)" "weakPool s"]
    have ex: "\<exists>k. weakPool (snd (updatePoolSize s)) = drop k (weakPool s)
                \<and> filter (resolves (collected s)) (take k (weakPool s)) = take ?n ?live"
      by (simp add: u)
    have len: "int (length (strongPool (snd (updatePoolSize s)))) \<le> c"
      using promote(1) by (simp add: u)
    have stop: "int (length (strongPool (snd (updatePoolSize s)))) = c
               \<or> weakPool (snd (updatePoolSize s)) = []"
      using after_resolving_stops [of ?n "resolves (collected s)" "weakPool s"] promote(1)
      by (auto simp: u)
    from u promote ex len stop show ?thesis by simp
  next
    case keep
    from keep have "\<not> newMaxStrongPoolSize s < of_nat (length (strongPool s))"
      "\<not> (of_nat (length (strongPool s)) < newMaxStrongPoolSize s \<and> weakPool s \<noteq> [])"
      by (simp_all only: lt1 lt2 not_False_eq_True)
    from updatePoolSize_keeps [OF this] keep show ?thesis by auto
  qed
  with algo show ?thesis by blast
qed

theorem updatePoolSize_rescales_witness:
  "newMaxStrongPoolSize overfull_pool = of_int 5 \<and> (0::int) \<le> 5
   \<and> 5 < int (length (strongPool overfull_pool))
   \<and> maxStrongPoolSize (snd (updatePoolSize overfull_pool)) = 5
   \<and> strongPool (snd (updatePoolSize overfull_pool)) = [0, 1, 2, 3, 4]
   \<and> weakPool (snd (updatePoolSize overfull_pool)) = [6, 5]
   \<and> newMaxStrongPoolSize underfull_pool = of_int 5
   \<and> (int (length (strongPool underfull_pool)) < 5 \<and> weakPool underfull_pool \<noteq> [])
   \<and> strongPool (snd (updatePoolSize underfull_pool)) = [0, 1, 3]
   \<and> weakPool (snd (updatePoolSize underfull_pool)) = []
   \<and> numGC (snd (updatePoolSize underfull_pool)) = 0
   \<and> newMaxStrongPoolSize (new_WeakPool defaultPoolScalingAlgo) = of_int 5
   \<and> strongPool (snd (updatePoolSize (new_WeakPool defaultPoolScalingAlgo))) = []"
proof -
  have ev: "newMaxStrongPoolSize overfull_pool = of_int 5"
    "newMaxStrongPoolSize underfull_pool = of_int 5"
    "newMaxStrongPoolSize (new_WeakPool defaultPoolScalingAlgo) = of_int 5"
    by (simp_all add: newMaxStrongPoolSize_def overfull_pool_def underfull_pool_def
        new_WeakPool_def defaultPoolScalingAlgo_def DEFAULT_MAX_STRONG_POOL_SIZE_def)
  have st: "strongPool overfull_pool = [0, 1, 2, 3, 4, 5, 6]" "weakPool overfull_pool = []"
    "strongPool underfull_pool = [0]" "weakPool underfull_pool = [1, 2, 3]"
    "collected underfull_pool = [2]"
    "strongPool (new_WeakPool defaultPoolScalingAlgo) = []"
    "weakPool (new_WeakPool defaultPoolScalingAlgo) = []"
    by (simp_all add: overfull_pool_def underfull_pool_def new_WeakPool_def)
  have five: "(0::int) \<le> 5" by simp
  show ?thesis
    using updatePoolSize_rescales [OF ev(1) five] updatePoolSize_rescales [OF ev(2) five]
      updatePoolSize_rescales [OF ev(3) five] ev
    by (auto simp: st resolves_def deref_def set_add_def getWeakRef_def)
qed

text \<open>
  Claim C7, as stated, fails: it speaks of any state, and the answer of a scaling algorithm
  is any number. With the answer 2.5 the length that \<open>push\<close> returns never equals the
  capacity, so all four weak handles are promoted and the strong tier, now of length 5,
  exceeds the capacity. With the answer -1 the do-while loop empties the strong tier and
  then pops \<open>undefined\<close>: the task throws and the debounce flag stays set.
\<close>

theorem updatePoolSize_fractional_or_negative_capacity:
  "newMaxStrongPoolSize fractional_pool = 5 / 2
   \<and> fst (updatePoolSize fractional_pool) = Inr ()
   \<and> maxStrongPoolSize (snd (updatePoolSize fractional_pool)) = 5 / 2
   \<and> strongPool (snd (updatePoolSize fractional_pool)) = [0, 1, 2, 3, 4]
   \<and> \<not> of_nat (length (strongPool (snd (updatePoolSize fractional_pool))))
          \<le> maxStrongPoolSize (snd (updatePoolSize fractional_pool))
   \<and> newMaxStrongPoolSize negative_pool = - 1
   \<and> fst (updatePoolSize negative_pool) = Inl TypeError
   \<and> poolSizeUpdateScheduled (snd (updatePoolSize negative_pool))"
  by code_simp

subsection \<open>release\<close>

lemma release_returns: "release ob None s = (Inr (), snd (release ob None s))"
  by (simp add: release_def Let_def)

text \<open>
  Claim C8. When \<open>release(obj)\<close> returns: if \<open>numStrongPooledRefs < curMaxStrongPoolSize\<close>
  held at the call, \<open>numStrongPooledRefs\<close> has grown by exactly 1 (the object was pushed)
  and the weak tier is unchanged; otherwise the object's handle has been added to the weak
  tier and the strong tier is unchanged.
\<close>

theorem release_tier_choice:
  assumes "release ob reset s = (Inr u, s')"
  shows "(fst (get_numStrongPooledRefs s) < fst (get_curMaxStrongPoolSize s) \<longrightarrow>
            fst (get_numStrongPooledRefs s') = fst (get_numStrongPooledRefs s) + 1
            \<and> fst (get_numWeakPooledRefs s') = fst (get_numWeakPooledRefs s)
            \<and> strongPool s' = strongPool s @ [ob] \<and> weakPool s' = weakPool s)
       \<and> (\<not> fst (get_numStrongPooledRefs s) < fst (get_curMaxStrongPoolSize s) \<longrightarrow>
            weakPool s' = set_add (getWeakRef ob) (weakPool s)
            \<and> fst (isWeakPooled ob s') \<and> strongPool s' = strongPool s)"
  using assms
  by (auto simp: release_def release_begin_def Let_def getter_defs isWeakPooled_def set_has_def
      set_add_def split: option.splits if_splits)

theorem release_tier_choice_witness:
  "release 3 None (new_WeakPool defaultPoolScalingAlgo)
     = (Inr (), snd (release 3 None (new_WeakPool defaultPoolScalingAlgo)))
   \<and> fst (get_numStrongPooledRefs (new_WeakPool defaultPoolScalingAlgo))
       < fst (get_curMaxStrongPoolSize (new_WeakPool defaultPoolScalingAlgo))
   \<and> strongPool (snd (release 3 None (new_WeakPool defaultPoolScalingAlgo))) = [3]
   \<and> weakPool (snd (release 3 None (new_WeakPool defaultPoolScalingAlgo))) = []
   \<and> release 3 None (new_WeakPool noStrongTier)
     = (Inr (), snd (release 3 None (new_WeakPool noStrongTier)))
   \<and> \<not> fst (get_numStrongPooledRefs (new_WeakPool noStrongTier))
       < fst (get_curMaxStrongPoolSize (new_WeakPool noStrongTier))
   \<and> strongPool (snd (release 3 None (new_WeakPool noStrongTier))) = []
   \<and> weakPool (snd (release 3 None (new_WeakPool noStrongTier))) = [3]"
  using release_tier_choice [OF release_returns [of 3 "new_WeakPool defaultPoolScalingAlgo"]]
    release_tier_choice [OF release_returns [of 3 "new_WeakPool noStrongTier"]]
  by (simp add: release_returns [symmetric] getter_defs new_WeakPool_def
      defaultPoolScalingAlgo_def DEFAULT_MAX_STRONG_POOL_SIZE_def noStrongTier_def
      set_add_def getWeakRef_def)

subsection \<open>Failing callbacks\<close>

text \<open>
  Claim C4. A value thrown by the factory during \<open>acquire\<close>, or by the reset callback
  during \<open>release\<close>, reaches the caller as it is, and the pool is left in the state it had
  immediately before the callback was invoked: for \<open>acquire\<close> the state at the call (the
  factory is invoked only on an empty strong tier, and has then been called once more); for
  \<open>release\<close> the state at the call with the handle deleted from the active set, or
  registered for finalization when it was not a member. Tiers, counters, capacity, debounce
  flag and task queue are those of the call.
\<close>

theorem callback_failure_state:
  "(strongPool s = [] \<longrightarrow>
      acquire (Inl e) s = (Inl e, s\<lparr> createCalls := Suc (createCalls s) \<rparr>))
   \<and> release ob (Some e) s = (Inl e, release_begin ob s)
   \<and> strongPool (release_begin ob s) = strongPool s
   \<and> weakPool (release_begin ob s) = weakPool s
   \<and> activeObjects (release_begin ob s) = set_delete (getWeakRef ob) (activeObjects s)
   \<and> numGC (release_begin ob s) = numGC s
   \<and> numActiveGC (release_begin ob s) = numActiveGC s
   \<and> maxStrongPoolSize (release_begin ob s) = maxStrongPoolSize s
   \<and> poolSizeUpdateScheduled (release_begin ob s) = poolSizeUpdateScheduled s
   \<and> timers (release_begin ob s) = timers s
   \<and> (registered (release_begin ob s) = registered s
        \<or> registered (release_begin ob s) = registered s @ [(ob, getWeakRef ob)])"
  by (simp add: acquire_def release_def release_begin_def Let_def set_has_def set_delete_def)

theorem callback_failure_state_witness:
  "strongPool (new_WeakPool defaultPoolScalingAlgo) = []
   \<and> fst (acquire (Inl (CallbackThrew 7)) (new_WeakPool defaultPoolScalingAlgo)) = Inl (CallbackThrew 7)
   \<and> activeObjects (snd (acquire (Inl (CallbackThrew 7)) (new_WeakPool defaultPoolScalingAlgo))) = []
   \<and> fst (release 0 (Some (CallbackThrew 7)) (new_WeakPool defaultPoolScalingAlgo))
        = Inl (CallbackThrew 7)
   \<and> strongPool (snd (release 0 (Some (CallbackThrew 7)) (new_WeakPool defaultPoolScalingAlgo))) = []
   \<and> timers (snd (release 0 (Some (CallbackThrew 7)) (new_WeakPool defaultPoolScalingAlgo))) = 0"
  using callback_failure_state [of "new_WeakPool defaultPoolScalingAlgo" "CallbackThrew 7" 0]
  by (simp add: new_WeakPool_def)

subsection \<open>The reclamation counters\<close>

lemma step_numActiveGC_mono: "numActiveGC s \<le> numActiveGC (step e s)"
  by (cases e) (simp_all add: acquire_frame release_frame runTimer_frame objFinalizer_counters)

lemma step_numGC_mono: "e \<noteq> Yield \<Longrightarrow> numGC s \<le> numGC (step e s)"
  by (cases e) (simp_all add: acquire_frame release_frame objFinalizer_counters)

lemma run_numActiveGC_mono: "numActiveGC s \<le> numActiveGC (run es s)"
proof (induction es arbitrary: s)
  case Nil
  then show ?case by (simp add: run_def)
next
  case (Cons e es)
  have "numActiveGC s \<le> numActiveGC (step e s)" by (rule step_numActiveGC_mono)
  also have "\<dots> \<le> numActiveGC (run es (step e s))" by (rule Cons.IH)
  finally show ?case by (simp add: run_def)
qed

lemma run_numGC_mono: "Yield \<notin> set es \<Longrightarrow> numGC s \<le> numGC (run es s)"
proof (induction es arbitrary: s)
  case Nil
  then show ?case by (simp add: run_def)
next
  case (Cons e es)
  then have "e \<noteq> Yield" and rest: "Yield \<notin> set es" by auto
  then have "numGC s \<le> numGC (step e s)" by (simp add: step_numGC_mono)
  also have "\<dots> \<le> numGC (run es (step e s))" using rest by (rule Cons.IH)
  finally show ?case by (simp add: run_def)
qed

lemma runTimer_numGC: "numGC (runTimer s) = 0 \<or> numGC (runTimer s) = numGC s"
  by (simp add: runTimer_def updatePoolSize_numGC)

lemma step_counters_bounded:
  assumes "0 \<le> numGC s \<and> numGC s \<le> MAX_SAFE_INTEGER
           \<and> 0 \<le> numActiveGC s \<and> numActiveGC s \<le> MAX_SAFE_INTEGER"
  shows "0 \<le> numGC (step e s) \<and> numGC (step e s) \<le> MAX_SAFE_INTEGER
           \<and> 0 \<le> numActiveGC (step e s) \<and> numActiveGC (step e s) \<le> MAX_SAFE_INTEGER"
proof (cases e)
  case Yield
  have "0 \<le> MAX_SAFE_INTEGER" by (simp add: MAX_SAFE_INTEGER_def)
  with assms Yield runTimer_numGC [of s] show ?thesis
    by (auto simp: runTimer_frame)
next
  case (Finalize w)
  with assms show ?thesis by (auto simp: objFinalizer_def Let_def)
qed (use assms in \<open>simp_all add: acquire_frame release_frame\<close>)

lemma reachable_counters_bounded:
  "reachable algo s \<Longrightarrow> 0 \<le> numGC s \<and> numGC s \<le> MAX_SAFE_INTEGER
           \<and> 0 \<le> numActiveGC s \<and> numActiveGC s \<le> MAX_SAFE_INTEGER"
proof (induction rule: reachable.induct)
  case reachable_new
  show ?case by (simp add: new_WeakPool_def MAX_SAFE_INTEGER_def)
next
  case (reachable_step s e)
  from reachable_step.IH show ?case by (rule step_counters_bounded)
qed

text \<open>
  Claim C9. Over every sequence of operations \<open>numActiveGC\<close> never decreases, and \<open>numGC\<close>
  never decreases over a sequence in which no rescale runs; a rescale leaves \<open>numGC\<close> at 0
  (or as it was, when nothing was pending or the task threw). A finalization that finds
  either counter at \<open>Number.MAX_SAFE_INTEGER\<close> leaves it there, and in every reachable
  state both counters lie between 0 and that maximum.
\<close>

theorem counters_monotone_saturating:
  "numActiveGC s \<le> numActiveGC (run es s)
   \<and> (Yield \<notin> set es \<longrightarrow> numGC s \<le> numGC (run es s))
   \<and> (numGC (step Yield s) = 0 \<or> numGC (step Yield s) = numGC s)
   \<and> (numGC s = MAX_SAFE_INTEGER \<longrightarrow> numGC (step (Finalize w) s) = MAX_SAFE_INTEGER)
   \<and> (numActiveGC s = MAX_SAFE_INTEGER \<longrightarrow>
        numActiveGC (step (Finalize w) s) = MAX_SAFE_INTEGER)
   \<and> (reachable algo s \<longrightarrow>
        0 \<le> numGC s \<and> numGC s \<le> MAX_SAFE_INTEGER
        \<and> 0 \<le> numActiveGC s \<and> numActiveGC s \<le> MAX_SAFE_INTEGER)"
proof -
  have sat: "numGC s = MAX_SAFE_INTEGER \<longrightarrow> numGC (step (Finalize w) s) = MAX_SAFE_INTEGER"
    "numActiveGC s = MAX_SAFE_INTEGER \<longrightarrow> numActiveGC (step (Finalize w) s) = MAX_SAFE_INTEGER"
    by (simp_all add: objFinalizer_def Let_def)
  show ?thesis
    using run_numActiveGC_mono [of s es] run_numGC_mono [of es s] runTimer_numGC [of s] sat
      reachable_counters_bounded [of algo s]
    by simp
qed

theorem counters_monotone_saturating_witness:
  "Yield \<notin> set [Acquire (Inr 0), Finalize 0]
   \<and> numGC (new_WeakPool defaultPoolScalingAlgo)
       \<le> numGC (run [Acquire (Inr 0), Finalize 0] (new_WeakPool defaultPoolScalingAlgo))
   \<and> numActiveGC (run [Acquire (Inr 0), Finalize 0] (new_WeakPool defaultPoolScalingAlgo)) = 1
   \<and> numGC saturated_pool = MAX_SAFE_INTEGER
   \<and> numGC (step (Finalize 0) saturated_pool) = MAX_SAFE_INTEGER
   \<and> weakPool (step (Finalize 0) saturated_pool) = []
   \<and> numActiveGC saturated_pool = MAX_SAFE_INTEGER
   \<and> numActiveGC (step (Finalize 1) saturated_pool) = MAX_SAFE_INTEGER
   \<and> activeObjects (step (Finalize 1) saturated_pool) = []
   \<and> reachable defaultPoolScalingAlgo (step (Acquire (Inr 0)) (new_WeakPool defaultPoolScalingAlgo))
   \<and> numGC (step (Acquire (Inr 0)) (new_WeakPool defaultPoolScalingAlgo)) \<le> MAX_SAFE_INTEGER"
proof -
  have r: "reachable defaultPoolScalingAlgo
             (step (Acquire (Inr 0)) (new_WeakPool defaultPoolScalingAlgo))"
    by (intro reachable_step reachable_new)
  have ev: "numActiveGC (run [Acquire (Inr 0), Finalize 0] (new_WeakPool defaultPoolScalingAlgo)) = 1"
    "weakPool (step (Finalize 0) saturated_pool) = []"
    "activeObjects (step (Finalize 1) saturated_pool) = []"
    "numGC saturated_pool = MAX_SAFE_INTEGER" "numActiveGC saturated_pool = MAX_SAFE_INTEGER"
    by (simp_all add: run_def acquire_def new_WeakPool_def objFinalizer_def Let_def set_has_def
        set_add_def set_delete_def getWeakRef_def MAX_SAFE_INTEGER_def saturated_pool_def)
  show ?thesis
    using counters_monotone_saturating
        [of "new_WeakPool defaultPoolScalingAlgo" "[Acquire (Inr 0), Finalize 0]" 0
          defaultPoolScalingAlgo]
      counters_monotone_saturating [of saturated_pool "[]" 0 defaultPoolScalingAlgo]
      counters_monotone_saturating [of saturated_pool "[]" 1 defaultPoolScalingAlgo]
      counters_monotone_saturating
        [of "step (Acquire (Inr 0)) (new_WeakPool defaultPoolScalingAlgo)" "[]" 0
          defaultPoolScalingAlgo]
      r ev
    by simp
qed

subsection \<open>acquire and the factory\<close>

lemma acquire_createCalls:
  "createCalls (snd (acquire c s)) = (if strongPool s = [] then Suc (createCalls s) else createCalls s)"
  by (simp add: acquire_def Let_def split: prod.splits sum.splits)

lemma acquire_backfilled:
  assumes "backfilled s"
  shows "backfilled (snd (acquire c s))"
proof (cases "strongPool s = []")
  case True
  with assms show ?thesis
    by (cases c) (auto simp: acquire_def Let_def backfilled_def)
next
  case False
  then obtain xs x where sp: "strongPool s = xs @ [x]"
    by (cases "strongPool s" rule: rev_cases) auto
  from backfill_cases [of "collected s" "weakPool s" xs] show ?thesis
  proof (elim disjE exE conjE)
    assume "acquire_backfill (collected s) (weakPool s) xs = ([], xs)"
    with sp assms show ?thesis by (simp add: acquire_def Let_def backfilled_def)
  next
    fix pre w rest
    assume "acquire_backfill (collected s) (weakPool s) xs = (rest, xs @ [w])"
    with sp assms show ?thesis by (simp add: acquire_def Let_def backfilled_def)
  qed
qed

lemma release_backfilled:
  assumes "backfilled s"
  shows "backfilled (snd (release ob r s))"
proof -
  have "of_nat (length (strongPool s)) < maxStrongPoolSize s \<or> strongPool s \<noteq> []"
    using assms by (auto simp: backfilled_def)
  with assms show ?thesis
    by (auto simp: release_def release_begin_def Let_def backfilled_def split: option.splits)
qed

lemma updatePoolSize_backfilled:
  assumes "backfilled s" "1 \<le> newMaxStrongPoolSize s"
  shows "backfilled (snd (updatePoolSize s))"
proof -
  consider (shrink) "newMaxStrongPoolSize s < of_nat (length (strongPool s))"
    | (promote) "of_nat (length (strongPool s)) < newMaxStrongPoolSize s" "weakPool s \<noteq> []"
    | (keep) "\<not> newMaxStrongPoolSize s < of_nat (length (strongPool s))"
        "\<not> (of_nat (length (strongPool s)) < newMaxStrongPoolSize s \<and> weakPool s \<noteq> [])"
    by blast
  then show ?thesis
  proof cases
    case shrink
    from assms(2) have nn: "0 \<le> newMaxStrongPoolSize s" by simp
    from assms(2) have "1 \<le> \<lfloor>newMaxStrongPoolSize s\<rfloor>" by (simp add: le_floor_iff)
    moreover from shrink assms(2) have "strongPool s \<noteq> []" by auto
    ultimately have "take (nat \<lfloor>newMaxStrongPoolSize s\<rfloor>) (strongPool s) \<noteq> []"
      by (cases "strongPool s") auto
    with updatePoolSize_shrinks [OF nn shrink] assms(2) show ?thesis
      by (simp add: backfilled_def)
  next
    case promote
    from updatePoolSize_promotes_shape [OF promote] obtain k where
      k: "updatePoolSize s =
         (Inr (), s\<lparr> maxStrongPoolSize := newMaxStrongPoolSize s,
                 weakPool := drop k (weakPool s),
                 strongPool := strongPool s @ filter (resolves (collected s)) (take k (weakPool s)),
                 numGC := 0, poolSizeUpdateScheduled := False \<rparr>)"
      by blast
    have "\<forall>w \<in> set (drop k (weakPool s)). w \<in> set (weakPool s)"
      by (auto dest: in_set_dropD)
    with k assms show ?thesis by (auto simp: backfilled_def)
  next
    case keep
    from updatePoolSize_keeps [OF keep] assms show ?thesis by (simp add: backfilled_def)
  qed
qed

lemma step_backfilled:
  assumes "backfilled s" "at_least_one (poolScalingAlgorithm s)"
  shows "backfilled (step e s)"
proof (cases e)
  case (Acquire c)
  with assms show ?thesis by (simp add: acquire_backfilled)
next
  case (Release ob r)
  with assms show ?thesis by (simp add: release_backfilled)
next
  case Yield
  have "backfilled (s\<lparr> timers := timers s - 1 \<rparr>)" using assms(1) by (simp add: backfilled_def)
  moreover have "1 \<le> newMaxStrongPoolSize (s\<lparr> timers := timers s - 1 \<rparr>)"
    using assms(2) by (simp add: newMaxStrongPoolSize_def at_least_one_def)
  ultimately have "backfilled (snd (updatePoolSize (s\<lparr> timers := timers s - 1 \<rparr>)))"
    by (rule updatePoolSize_backfilled)
  with assms(1) Yield show ?thesis by (simp add: runTimer_def)
next
  case (Collect ob)
  with assms(1) show ?thesis by (auto simp: backfilled_def dest: resolves_set_add)
next
  case (Finalize w)
  with assms(1) show ?thesis by (auto simp: objFinalizer_def Let_def backfilled_def)
qed

lemma reachable_backfilled:
  assumes "reachable algo s" "at_least_one algo"
  shows "backfilled s"
  using assms
proof (induction rule: reachable.induct)
  case reachable_new
  then show ?case by (simp add: backfilled_def new_WeakPool_def at_least_one_def)
next
  case (reachable_step s e)
  from reachable_step.hyps reachable_step.prems have "at_least_one (poolScalingAlgorithm s)"
    by (simp add: reachable_algorithm)
  with reachable_step.IH [OF reachable_step.prems] show ?case by (rule step_backfilled)
qed

text \<open>
  Claim C1, as the code has it. \<open>acquire\<close> looks at the strong tier only: it never invokes
  the factory while the strong tier is non-empty, and always invokes it when the strong tier
  is empty, whatever the weak tier holds. In every state reachable with a scaling algorithm
  whose answers are all at least 1 (those of the default algorithm are at least 5), a weak
  tier with a handle that resolves goes with a non-empty strong tier, so there the factory is
  not invoked while a reusable object exists in either tier.
\<close>

theorem acquire_calls_factory_on_empty_strong_tier:
  "(strongPool s \<noteq> [] \<longrightarrow> createCalls (snd (acquire c s)) = createCalls s)
   \<and> (strongPool s = [] \<longrightarrow> createCalls (snd (acquire c s)) = Suc (createCalls s))
   \<and> (reachable algo s \<and> at_least_one algo
        \<and> (\<exists>w \<in> set (weakPool s). resolves (collected s) w)
       \<longrightarrow> strongPool s \<noteq> [] \<and> createCalls (snd (acquire c s)) = createCalls s)"
  using reachable_backfilled [of algo s]
  by (auto simp: acquire_createCalls backfilled_def)

theorem acquire_calls_factory_on_empty_strong_tier_witness:
  "strongPool overflowed_pool \<noteq> []
   \<and> createCalls (snd (acquire (Inr 9) overflowed_pool)) = createCalls overflowed_pool
   \<and> strongPool (new_WeakPool defaultPoolScalingAlgo) = []
   \<and> createCalls (snd (acquire (Inr 0) (new_WeakPool defaultPoolScalingAlgo))) = 1
   \<and> reachable defaultPoolScalingAlgo overflowed_pool
   \<and> at_least_one defaultPoolScalingAlgo
   \<and> (\<exists>w \<in> set (weakPool overflowed_pool). resolves (collected overflowed_pool) w)"
proof -
  have r: "reachable defaultPoolScalingAlgo overflowed_pool"
    unfolding overflowed_pool_def by (intro reachable_run reachable_new)
  have w: "weakPool overflowed_pool = [5]" "collected overflowed_pool = []"
    by code_simp+
  have l: "\<exists>w \<in> set (weakPool overflowed_pool). resolves (collected overflowed_pool) w"
    by (simp add: w resolves_def deref_def)
  have n: "strongPool (new_WeakPool defaultPoolScalingAlgo) = []"
    "createCalls (new_WeakPool defaultPoolScalingAlgo) = 0"
    by (simp_all add: new_WeakPool_def)
  from acquire_calls_factory_on_empty_strong_tier
         [of overflowed_pool "Inr 9" defaultPoolScalingAlgo]
    acquire_calls_factory_on_empty_strong_tier
         [of "new_WeakPool defaultPoolScalingAlgo" "Inr 0" defaultPoolScalingAlgo]
    r l n defaultPoolScalingAlgo_at_least_one
  show ?thesis by simp
qed

text \<open>
  Claim C1, as stated, fails. With a scaling algorithm that answers 0, one acquire and the
  release of the acquired object leave the strong tier empty and the object's handle, which
  still resolves, in the weak tier; the next \<open>acquire\<close> invokes the factory all the same.
\<close>

theorem acquire_calls_factory_despite_live_weak_handle:
  "fst (get_numStrongPooledRefs weak_only_pool) = 0
   \<and> weakPool weak_only_pool = [getWeakRef 0]
   \<and> deref (collected weak_only_pool) (getWeakRef 0) = Some 0
   \<and> createCalls (snd (acquire (Inr 1) weak_only_pool)) = Suc (createCalls weak_only_pool)"
  by (simp add: weak_only_pool_def acquire_def release_def release_begin_def new_WeakPool_def
      noStrongTier_def Let_def set_add_def set_has_def set_delete_def getWeakRef_def deref_def
      get_numStrongPooledRefs_def)

subsection \<open>Arming the rescale task\<close>











subsection \<open>One place per object\<close>

lemma updatePoolSize_exclusive:
  assumes "exclusive s"
  shows "exclusive (snd (updatePoolSize s))"
proof -
  have act: "activeObjects (snd (updatePoolSize s)) = activeObjects s"
    by (simp add: updatePoolSize_def updatePoolSize_finish_def Let_def
        split: prod.splits sum.splits)
  from assms have d: "distinct (strongPool s)" "distinct (weakPool s)" "distinct (activeObjects s)"
    and x: "set (activeObjects s) \<inter> set (strongPool s) = {}"
      "set (activeObjects s) \<inter> set (weakPool s) = {}"
      "set (strongPool s) \<inter> set (weakPool s) = {}"
    by (simp_all add: exclusive_def)
  from updatePoolSize_tiers [of s] show ?thesis
  proof (elim disjE exE conjE)
    fix k
    assume st: "strongPool (snd (updatePoolSize s)) = take k (strongPool s)"
      and wk: "weakPool (snd (updatePoolSize s)) =
            fold (\<lambda>ob. set_add (getWeakRef ob)) (rev (drop k (strongPool s))) (weakPool s)"
    have "set (take k (strongPool s)) \<subseteq> set (strongPool s)"
      "set (drop k (strongPool s)) \<subseteq> set (strongPool s)"
      by (simp_all add: set_take_subset set_drop_subset)
    with d x take_drop_disjoint [OF d(1), of k] show ?thesis
      unfolding exclusive_def act st wk
      by (simp add: set_fold_set_add distinct_fold_set_add) blast
  next
    fix k
    assume st: "strongPool (snd (updatePoolSize s)) =
              strongPool s @ filter (resolves (collected s)) (take k (weakPool s))"
      and wk: "weakPool (snd (updatePoolSize s)) = drop k (weakPool s)"
    have "set (take k (weakPool s)) \<subseteq> set (weakPool s)"
      "set (drop k (weakPool s)) \<subseteq> set (weakPool s)"
      by (simp_all add: set_take_subset set_drop_subset)
    with d x take_drop_disjoint [OF d(2), of k] show ?thesis
      unfolding exclusive_def act st wk
      by simp blast
  qed
qed

lemma acquire_exclusive:
  assumes "exclusive s" "permitted (Acquire c) s"
  shows "exclusive (snd (acquire c s))"
proof (cases "strongPool s = []")
  case True
  with assms show ?thesis
    by (cases c) (auto simp: acquire_def Let_def exclusive_def fresh_def getWeakRef_def)
next
  case False
  then obtain xs x where sp: "strongPool s = xs @ [x]"
    by (cases "strongPool s" rule: rev_cases) auto
  from assms(1) sp have d: "distinct xs" "x \<notin> set xs" "distinct (weakPool s)"
      "distinct (activeObjects s)"
    and x: "x \<notin> set (activeObjects s)" "x \<notin> set (weakPool s)"
      "set (activeObjects s) \<inter> set xs = {}"
      "set (activeObjects s) \<inter> set (weakPool s) = {}"
      "set xs \<inter> set (weakPool s) = {}"
    by (auto simp: exclusive_def)
  from backfill_cases [of "collected s" "weakPool s" xs] show ?thesis
  proof (elim disjE exE conjE)
    assume "acquire_backfill (collected s) (weakPool s) xs = ([], xs)"
    with sp d x show ?thesis
      by (auto simp: acquire_def Let_def exclusive_def getWeakRef_def)
  next
    fix pre w rest
    assume w: "weakPool s = pre @ w # rest"
      and b: "acquire_backfill (collected s) (weakPool s) xs = (rest, xs @ [w])"
    from w d(3) have "distinct rest" "w \<notin> set rest" by auto
    moreover from w x have "w \<noteq> x" "w \<notin> set xs" "w \<notin> set (activeObjects s)"
      "x \<notin> set rest" "set xs \<inter> set rest = {}" "set (activeObjects s) \<inter> set rest = {}"
      by auto
    ultimately show ?thesis using sp d x(1,3) b
      by (auto simp: acquire_def Let_def exclusive_def getWeakRef_def)
  qed
qed

lemma release_exclusive:
  assumes "exclusive s" "permitted (Release ob r) s"
  shows "exclusive (snd (release ob r s))"
  using assms
  by (auto simp: release_def release_begin_def Let_def exclusive_def getWeakRef_def set_has_def
      split: option.splits)

lemma objFinalizer_exclusive:
  assumes "exclusive s"
  shows "exclusive (objFinalizer w s)"
  using assms by (auto simp: objFinalizer_def Let_def exclusive_def)

lemma step_exclusive:
  assumes "exclusive s" "permitted e s"
  shows "exclusive (step e s)"
proof (cases e)
  case (Acquire c)
  with assms show ?thesis by (simp add: acquire_exclusive)
next
  case (Release ob r)
  with assms show ?thesis by (simp add: release_exclusive)
next
  case Yield
  have "exclusive (s\<lparr> timers := timers s - 1 \<rparr>)" using assms(1) by (simp add: exclusive_def)
  then have "exclusive (snd (updatePoolSize (s\<lparr> timers := timers s - 1 \<rparr>)))"
    by (rule updatePoolSize_exclusive)
  with assms(1) Yield show ?thesis by (simp add: runTimer_def)
next
  case (Collect ob)
  with assms(1) show ?thesis by (simp add: exclusive_def)
next
  case (Finalize w)
  with assms(1) show ?thesis by (simp add: objFinalizer_exclusive)
qed

lemma disciplined_exclusive: "disciplined algo s \<Longrightarrow> exclusive s"
proof (induction rule: disciplined.induct)
  case disciplined_new
  show ?case by (simp add: exclusive_def new_WeakPool_def)
next
  case (disciplined_step s e)
  from disciplined_step.IH disciplined_step.hyps(2) show ?case by (rule step_exclusive)
qed

text \<open>
  Claim C5. In every state reached from a new pool by acquires (the factory constructing new
  objects), releases of objects that are active, rescales, reclamations and finalizations,
  no object is in two of the active set, the strong tier and the weak tier: for every
  object, \<open>isActive\<close>, \<open>isStrongPooled\<close> and \<open>isWeakPooled\<close> are pairwise mutually
  exclusive.
\<close>

theorem tiers_mutually_exclusive:
  assumes "disciplined algo s"
  shows "\<not> (fst (isActive ob s) \<and> fst (isStrongPooled ob s))
       \<and> \<not> (fst (isActive ob s) \<and> fst (isWeakPooled ob s))
       \<and> \<not> (fst (isStrongPooled ob s) \<and> fst (isWeakPooled ob s))"
  using disciplined_exclusive [OF assms]
  by (auto simp: exclusive_def isActive_def isStrongPooled_def isWeakPooled_def set_has_def
      getWeakRef_def)

theorem tiers_mutually_exclusive_witness:
  "disciplined defaultPoolScalingAlgo pooled_once
   \<and> fst (isStrongPooled 0 pooled_once)
   \<and> \<not> fst (isActive 0 pooled_once) \<and> \<not> fst (isWeakPooled 0 pooled_once)"
proof -
  have p1: "permitted (Acquire (Inr 0)) (new_WeakPool defaultPoolScalingAlgo)"
    by (simp add: fresh_def new_WeakPool_def)
  have p2: "permitted (Release 0 None) (step (Acquire (Inr 0)) (new_WeakPool defaultPoolScalingAlgo))"
    by (simp add: new_WeakPool_def acquire_def Let_def set_has_def set_add_def getWeakRef_def)
  have d: "disciplined defaultPoolScalingAlgo pooled_once"
    unfolding pooled_once_def
    by (intro disciplined_step disciplined_new p1 p2)
  have ev: "fst (isStrongPooled 0 pooled_once)"
    by (simp add: pooled_once_def isStrongPooled_def new_WeakPool_def acquire_def release_def
        release_begin_def Let_def set_has_def set_add_def set_delete_def getWeakRef_def algo_defs)
  from tiers_mutually_exclusive [OF d, of 0] d ev show ?thesis by simp
qed

end
